theory Spec2Isabelle
  imports Complex_Main
begin

section \<open>The viewport windowing engine (useVirtualList)\<close>

subsection \<open>JavaScript numbers\<close>

text \<open>
  JavaScript numbers that measure pixels (heights, offsets, extents) are IEEE 754 binary64
  values. A finite value is modelled by the \<^typ>\<open>real\<close> it denotes, and every arithmetic
  operation rounds its exact result to the nearest binary64 value, ties to even. The
  exponent range is bounded below (subnormal numbers, quantum \<open>2 powi - 1074\<close>) and not above:
  no operation overflows to \<open>Infinity\<close>, and there is no \<open>NaN\<close>. Numbers that index the
  table are \<^typ>\<open>int\<close>, array lengths are \<^typ>\<open>nat\<close>.
\<close>

text \<open>Rounding to the nearest integer, ties to even.\<close>

definition rne :: "real \<Rightarrow> int" where
  "rne x = (let f = \<lfloor>x\<rfloor>; d = x - of_int f in
            if d < 1 / 2 then f else if 1 / 2 < d then f + 1
            else if even f then f else f + 1)"

text \<open>
  The binary64 value nearest to \<open>m * 2 powi e\<close>, for \<open>m > 0\<close>: the significand is scaled into
  \<open>[2 ^ 52, 2 ^ 53)\<close>, or as far as the least exponent allows, and rounded to an integer.
\<close>

function fl_scaled :: "real \<Rightarrow> int \<Rightarrow> real" where
  "fl_scaled m e =
     (if 2 ^ 53 \<le> m then fl_scaled (m / 2) (e + 1)
      else if m < 2 ^ 52 \<and> - 1074 < e then fl_scaled (2 * m) (e - 1)
      else of_int (rne m) * 2 powi e)"
  by pat_completeness auto
termination
proof (relation "measure (\<lambda>(m, e). if 2 ^ 53 \<le> m then nat \<lfloor>m\<rfloor>
                                 else if m < 2 ^ 52 \<and> - 1074 < e then nat (e + 1074) else 0)",
       goal_cases)
  case 1
  show ?case by simp
next
  case (2 m e)
  have "1 \<le> \<lfloor>m\<rfloor>" using 2 by (simp add: le_floor_iff)
  moreover have "\<lfloor>m / 2\<rfloor> < \<lfloor>m\<rfloor>"
  proof -
    have "m / 2 < of_int \<lfloor>m\<rfloor>" using \<open>1 \<le> \<lfloor>m\<rfloor>\<close> by linarith
    then show ?thesis by (simp add: floor_less_iff)
  qed
  ultimately show ?case using 2 by (simp add: nat_less_iff)
next
  case (3 m e)
  then show ?case by (simp add: nat_less_iff)
qed

declare fl_scaled.simps [simp del]

definition fl :: "real \<Rightarrow> real" where
  "fl x = (if x = 0 then 0 else if x < 0 then - fl_scaled (- x) 0 else fl_scaled x 0)"

text \<open>The operators \<open>+\<close>, \<open>-\<close> and \<open>/\<close> on numbers.\<close>

definition fadd :: "real \<Rightarrow> real \<Rightarrow> real" where
  "fadd x y = fl (x + y)"

definition fsub :: "real \<Rightarrow> real \<Rightarrow> real" where
  "fsub x y = fl (x - y)"

definition fdiv :: "real \<Rightarrow> real \<Rightarrow> real" where
  "fdiv x y = fl (x / y)"

text \<open>The reals that are numbers of the program.\<close>

definition is_double :: "real \<Rightarrow> bool" where
  "is_double x \<longleftrightarrow> fl x = x"

text \<open>
  \<open>quantum x q\<close>: the binary64 values around the positive real \<open>x\<close> are the multiples of
  \<open>2 powi q\<close>.
\<close>

definition quantum :: "real \<Rightarrow> int \<Rightarrow> bool" where
  "quantum x q \<longleftrightarrow> - 1074 \<le> q \<and> x < 2 powi (q + 53) \<and> (q = - 1074 \<or> 2 powi (q + 52) \<le> x)"

subsection \<open>The position table\<close>

record position =
  pos_start :: real
  pos_end :: real
  pos_size :: real

record virtual_item =
  vi_index :: int
  vi_start :: real
  vi_end :: real
  vi_size :: real

text \<open>\<open>itemHeight: number | ((index: number) => number)\<close>\<close>

datatype item_height = FixedHeight real | HeightFn "nat \<Rightarrow> real"

fun getItemHeight :: "item_height \<Rightarrow> nat \<Rightarrow> real" where
  "getItemHeight (HeightFn f) index = f index"
| "getItemHeight (FixedHeight h) index = h"

text \<open>
  The body of the \<open>useMemo\<close> that builds the table: the \<open>for\<close> loop over
  \<open>i < items.length\<close>, carrying \<open>currentOffset\<close> and \<open>positions\<close>.
\<close>

function positions_loop ::
  "item_height \<Rightarrow> nat \<Rightarrow> nat \<Rightarrow> real \<Rightarrow> position list \<Rightarrow> real \<times> position list" where
  "positions_loop itemHeight n i currentOffset positions =
     (if i < n then
        let height = getItemHeight itemHeight i in
        positions_loop itemHeight n (i + 1) (fadd currentOffset height)
          (positions @ [\<lparr>pos_start = currentOffset, pos_end = fadd currentOffset height,
                          pos_size = height\<rparr>])
      else (currentOffset, positions))"
  by pat_completeness auto
termination
  by (relation "measure (\<lambda>(itemHeight, n, i, currentOffset, positions). n - i)") auto

declare positions_loop.simps [simp del]

definition totalHeight :: "nat \<Rightarrow> item_height \<Rightarrow> real" where
  "totalHeight n itemHeight = fst (positions_loop itemHeight n 0 0 [])"

definition itemPositions :: "nat \<Rightarrow> item_height \<Rightarrow> position list" where
  "itemPositions n itemHeight = snd (positions_loop itemHeight n 0 0 [])"

text \<open>
  The sum of the heights of the first \<open>k\<close> items, taken from left to right in the
  arithmetic of the program: what the specification calls the prefix sum.
\<close>

primrec prefix_sum :: "item_height \<Rightarrow> nat \<Rightarrow> real" where
  "prefix_sum itemHeight 0 = 0"
| "prefix_sum itemHeight (Suc k) = fadd (prefix_sum itemHeight k) (getItemHeight itemHeight k)"

subsection \<open>The visible range\<close>

text \<open>
  \<open>itemPositions[i]\<close> for a number \<open>i\<close>: \<open>undefined\<close> outside the array.
\<close>

definition entry_at :: "position list \<Rightarrow> int \<Rightarrow> position option" where
  "entry_at positions i =
     (if 0 \<le> i \<and> i < int (length positions) then Some (positions ! nat i) else None)"

text \<open>
  The \<open>while (low <= high)\<close> loop of \<open>findStartIndex\<close>, with its early \<open>return mid\<close>,
  its \<open>break\<close> on a missing entry and the final \<open>return Math.max(0, low)\<close>.
\<close>

function findStart_loop :: "position list \<Rightarrow> real \<Rightarrow> int \<Rightarrow> int \<Rightarrow> int" where
  "findStart_loop positions scrollTop low high =
     (if low \<le> high then
        let mid = (low + high) div 2 in
        (case entry_at positions mid of
           None \<Rightarrow> max 0 low
         | Some pos \<Rightarrow>
             if pos_end pos < scrollTop then findStart_loop positions scrollTop (mid + 1) high
             else if pos_start pos > scrollTop then findStart_loop positions scrollTop low (mid - 1)
             else mid)
      else max 0 low)"
  by pat_completeness auto
termination
  by (relation "measure (\<lambda>(positions, scrollTop, low, high). nat (high - low + 1))") auto

declare findStart_loop.simps [simp del]

definition findStartIndex :: "position list \<Rightarrow> real \<Rightarrow> int" where
  "findStartIndex positions scrollTop =
     findStart_loop positions scrollTop 0 (int (length positions) - 1)"

text \<open>
  The loop of \<open>findEndIndex\<close>; the final \<open>return\<close> is
  \<open>Math.min(itemPositions.length - 1, low)\<close>.
\<close>

function findEnd_loop :: "position list \<Rightarrow> real \<Rightarrow> int \<Rightarrow> int \<Rightarrow> int" where
  "findEnd_loop positions targetEnd low high =
     (if low \<le> high then
        let mid = (low + high) div 2 in
        (case entry_at positions mid of
           None \<Rightarrow> min (int (length positions) - 1) low
         | Some pos \<Rightarrow>
             if pos_start pos > targetEnd then findEnd_loop positions targetEnd low (mid - 1)
             else if pos_end pos < targetEnd then findEnd_loop positions targetEnd (mid + 1) high
             else mid)
      else min (int (length positions) - 1) low)"
  by pat_completeness auto
termination
  by (relation "measure (\<lambda>(positions, targetEnd, low, high). nat (high - low + 1))") auto

declare findEnd_loop.simps [simp del]

definition findEndIndex :: "position list \<Rightarrow> real \<Rightarrow> real \<Rightarrow> int" where
  "findEndIndex positions scrollTop containerHeight =
     (let targetEnd = fadd scrollTop containerHeight in
      findEnd_loop positions targetEnd 0 (int (length positions) - 1))"

text \<open>
  The \<open>virtualItems\<close> memo. \<open>items_length\<close> is \<open>items.length\<close>; the \<open>for\<close> loop
  from \<open>startIndex\<close> to \<open>endIndex\<close> pushes an item for every index that has an entry.
\<close>

definition window_start :: "position list \<Rightarrow> real \<Rightarrow> int \<Rightarrow> int" where
  "window_start positions scrollTop overscan =
     max 0 (findStartIndex positions scrollTop - overscan)"

definition window_end :: "nat \<Rightarrow> position list \<Rightarrow> real \<Rightarrow> real \<Rightarrow> int \<Rightarrow> int" where
  "window_end items_length positions scrollTop containerHeight overscan =
     min (int items_length - 1) (findEndIndex positions scrollTop containerHeight + overscan)"

definition virtualItems ::
  "nat \<Rightarrow> position list \<Rightarrow> real \<Rightarrow> real \<Rightarrow> int \<Rightarrow> virtual_item list" where
  "virtualItems items_length positions containerHeight scrollTop overscan =
     (if items_length = 0 \<or> containerHeight = 0 then []
      else
        let startIndex = window_start positions scrollTop overscan;
            endIndex = window_end items_length positions scrollTop containerHeight overscan
        in concat (map (\<lambda>i. case entry_at positions i of
                               None \<Rightarrow> []
                             | Some pos \<Rightarrow> [\<lparr>vi_index = i, vi_start = pos_start pos,
                                             vi_end = pos_end pos, vi_size = pos_size pos\<rparr>])
                       [startIndex..endIndex]))"

text \<open>
  What \<open>useVirtualList\<close> returns as \<open>virtualItems\<close>: the table is always the one built
  from the same \<open>items.length\<close> and \<open>itemHeight\<close>.
\<close>

definition useVirtualList_items ::
  "nat \<Rightarrow> item_height \<Rightarrow> real \<Rightarrow> real \<Rightarrow> int \<Rightarrow> virtual_item list" where
  "useVirtualList_items n itemHeight containerHeight scrollTop overscan =
     virtualItems n (itemPositions n itemHeight) containerHeight scrollTop overscan"

subsection \<open>Scrolling to an item\<close>

text \<open>
  \<open>scrollToIndex\<close>. Its effect is one of: nothing (\<open>None\<close>), an assignment to
  \<open>container.scrollTop\<close>, or a call of \<open>window.scrollTo\<close>. \<open>mounted\<close> says that
  \<open>containerRef.current\<close> is set; \<open>containerTop\<close> is \<open>window.scrollY + rect.top\<close>, read
  from the page in window mode only.
\<close>

datatype align = AlignStart | AlignCenter | AlignEnd

datatype scroll_effect = SetScrollTop real | WindowScrollTo real

definition scrollToIndex ::
  "bool \<Rightarrow> real \<Rightarrow> bool \<Rightarrow> nat \<Rightarrow> position list \<Rightarrow> real \<Rightarrow> int \<Rightarrow> align \<Rightarrow> scroll_effect option"
  where
  "scrollToIndex mounted containerTop useWindowScroll items_length positions containerHeight
       index algn =
     (if \<not> mounted \<or> index < 0 \<or> index \<ge> int items_length then None
      else case entry_at positions index of
        None \<Rightarrow> None
      | Some pos \<Rightarrow>
          let targetScrollTop =
                (case algn of
                   AlignStart \<Rightarrow> pos_start pos
                 | AlignCenter \<Rightarrow>
                     fadd (fsub (pos_start pos) (fdiv containerHeight 2)) (fdiv (pos_size pos) 2)
                 | AlignEnd \<Rightarrow> fsub (pos_end pos) containerHeight)
          in if useWindowScroll then Some (WindowScrollTo (fadd containerTop (max 0 targetScrollTop)))
             else Some (SetScrollTop (max 0 targetScrollTop)))"

text \<open>
  A per-index height function that reads its heights from a list (and is \<open>0\<close> beyond
  it), for stating concrete tables.
\<close>

definition heights_of_list :: "real list \<Rightarrow> item_height" where
  "heights_of_list hs = HeightFn (\<lambda>i. if i < length hs then hs ! i else 0)"

section \<open>The pagination fetch controller (useInfiniteList)\<close>

subsection \<open>Data\<close>

text \<open>
  An \<open>Error\<close> object is modelled by its message. A thrown value is either an \<open>Error\<close>
  instance or some other value; what a promise settles with is an \<open>outcome\<close>.
\<close>

datatype js_error = Error string

datatype thrown = ThrownError js_error | ThrownOther

datatype 'd outcome = Resolved 'd | Rejected thrown

text \<open>\<open>PaginationType = PagePagination | CursorPagination\<close>; an optional field is an option.\<close>

datatype pagination =
    PagePagination "int option" "int option"
  | CursorPagination "string option" "int option"

text \<open>\<open>PageFetcherParams | CursorFetcherParams\<close>: what the fetcher is called with.\<close>

datatype params = PageParams int int | CursorParams "string option" int

text \<open>
  The options of the hook. An extraction function either returns (\<open>Inr\<close>) or throws
  (\<open>Inl\<close>). The callbacks \<open>onSuccess\<close> and \<open>onError\<close> are observers that return
  normally: the options say whether each is supplied, and the state records every call
  made to them. The fetcher
  and \<open>enabled\<close> are not part of this record: the fetcher's result and the runs of the
  initial-fetch effect come from the environment.
\<close>

record ('d, 'i) options =
  pagination :: pagination
  getData :: "'d \<Rightarrow> thrown + 'i list"
  getTotal :: "('d \<Rightarrow> thrown + int) option"
  getNextCursor :: "('d \<Rightarrow> thrown + string option) option"
  hasMoreFn :: "('d \<Rightarrow> 'i list \<Rightarrow> thrown + bool) option"
  onSuccess :: bool
  onError :: bool

definition isPagePagination :: "('d, 'i) options \<Rightarrow> bool" where
  "isPagePagination opts =
     (case pagination opts of PagePagination p l \<Rightarrow> True | CursorPagination c l \<Rightarrow> False)"

text \<open>\<open>pagination.limit ?? 20\<close>\<close>

definition limit :: "('d, 'i) options \<Rightarrow> int" where
  "limit opts =
     (case pagination opts of
        PagePagination p l \<Rightarrow> (case l of None \<Rightarrow> 20 | Some n \<Rightarrow> n)
      | CursorPagination c l \<Rightarrow> (case l of None \<Rightarrow> 20 | Some n \<Rightarrow> n))"

text \<open>\<open>isPagePagination ? (pagination.initialPage ?? 1) : 1\<close>\<close>

definition initial_page :: "('d, 'i) options \<Rightarrow> int" where
  "initial_page opts =
     (case pagination opts of
        PagePagination p l \<Rightarrow> (case p of None \<Rightarrow> 1 | Some n \<Rightarrow> n)
      | CursorPagination c l \<Rightarrow> 1)"

text \<open>\<open>!isPagePagination ? (pagination.initialCursor ?? null) : null\<close>\<close>

definition initial_cursor :: "('d, 'i) options \<Rightarrow> string option" where
  "initial_cursor opts =
     (case pagination opts of
        PagePagination p l \<Rightarrow> None
      | CursorPagination c l \<Rightarrow> c)"

text \<open>A call the hook makes to the outside: the fetcher or one of the two callbacks.\<close>

datatype ('d, 'i) call =
    FetcherCall params
  | OnSuccessCall 'd "'i list"
  | OnErrorCall js_error

text \<open>
  The state of one hook instance: the five \<open>useState\<close> cells, the seven refs, and the
  calls made so far.
\<close>

record ('d, 'i) hook_state =
  items :: "'i list"
  isLoading :: bool
  isLoadingMore :: bool
  error :: "js_error option"
  hasMore :: bool
  pageRef :: int
  cursorRef :: "string option"
  totalRef :: "int option"
  isFetchingRef :: bool
  isInitializedRef :: bool
  itemsRef :: "'i list"
  hasMoreRef :: bool
  calls :: "('d, 'i) call list"

definition initial_state :: "('d, 'i) options \<Rightarrow> ('d, 'i) hook_state" where
  "initial_state opts =
     \<lparr>items = [], isLoading = False, isLoadingMore = False, error = None, hasMore = True,
      pageRef = initial_page opts, cursorRef = initial_cursor opts, totalRef = None,
      isFetchingRef = False, isInitializedRef = False, itemsRef = [], hasMoreRef = True,
      calls = []\<rparr>"

text \<open>\<open>LoadResult\<close>, and the snapshot \<open>{itemsRef.current.length, hasMoreRef.current}\<close>.\<close>

record load_result =
  itemsCount :: nat
  result_hasMore :: bool

definition snapshot :: "('d, 'i) hook_state \<Rightarrow> load_result" where
  "snapshot s = \<lparr>itemsCount = length (itemsRef s), result_hasMore = hasMoreRef s\<rparr>"

subsection \<open>checkHasMore\<close>

text \<open>
  The result is what the function returns or throws; the state changes because the
  page-mode rule stores the total in \<open>totalRef\<close>.
\<close>

definition checkHasMore ::
  "('d, 'i) options \<Rightarrow> 'd \<Rightarrow> 'i list \<Rightarrow> ('d, 'i) hook_state
     \<Rightarrow> (thrown + bool) \<times> ('d, 'i) hook_state" where
  "checkHasMore opts response allItems s =
     (case hasMoreFn opts of
        Some f \<Rightarrow> (f response allItems, s)
      | None \<Rightarrow>
          (case (if \<not> isPagePagination opts then getNextCursor opts else None) of
             Some g \<Rightarrow>
               (case g response of
                  Inl t \<Rightarrow> (Inl t, s)
                | Inr nextCursor \<Rightarrow> (Inr (nextCursor \<noteq> None), s))
           | None \<Rightarrow>
               (case (if isPagePagination opts then getTotal opts else None) of
                  Some g \<Rightarrow>
                    (case g response of
                       Inl t \<Rightarrow> (Inl t, s)
                     | Inr total' \<Rightarrow>
                         (Inr (int (length allItems) < total'), s\<lparr>totalRef := Some total'\<rparr>))
                | None \<Rightarrow>
                    (case getData opts response of
                       Inl t \<Rightarrow> (Inl t, s)
                     | Inr newItems \<Rightarrow> (Inr (int (length newItems) \<ge> limit opts), s)))))"

subsection \<open>fetchData\<close>

text \<open>
  \<open>fetchData\<close> is an \<open>async\<close> function with one \<open>await\<close>. \<open>fetchData_begin\<close> is the
  part that runs in the caller's turn: the two guarded early returns, or the flag updates
  and the call of the fetcher, after which the function is suspended. \<open>fetchData_resume\<close>
  is the part that runs when the fetcher's promise has settled: the rest of the \<open>try\<close>
  block, the \<open>catch\<close> block and the \<open>finally\<close> block.
\<close>

datatype started = Returned load_result | Awaiting params

definition fetchData_begin ::
  "('d, 'i) options \<Rightarrow> bool \<Rightarrow> ('d, 'i) hook_state \<Rightarrow> started \<times> ('d, 'i) hook_state" where
  "fetchData_begin opts isLoadMore s =
     (if isFetchingRef s then (Returned (snapshot s), s)
      else if isLoadMore \<and> \<not> hasMoreRef s then
        (Returned \<lparr>itemsCount = length (itemsRef s), result_hasMore = False\<rparr>, s)
      else
        let s1 = s\<lparr>isFetchingRef := True\<rparr>;
            s2 = (if isLoadMore then s1\<lparr>isLoadingMore := True\<rparr> else s1\<lparr>isLoading := True\<rparr>);
            s3 = s2\<lparr>error := None\<rparr>;
            params = (if isPagePagination opts then PageParams (pageRef s3) (limit opts)
                      else CursorParams (cursorRef s3) (limit opts))
        in (Awaiting params, s3\<lparr>calls := calls s3 @ [FetcherCall params]\<rparr>))"

text \<open>\<open>if (isPagePagination) pageRef.current += 1 else if (getNextCursor) cursorRef.current = getNextCursor(response)\<close>\<close>

definition advance ::
  "('d, 'i) options \<Rightarrow> 'd \<Rightarrow> ('d, 'i) hook_state \<Rightarrow> (thrown + unit) \<times> ('d, 'i) hook_state" where
  "advance opts response s =
     (if isPagePagination opts then (Inr (), s\<lparr>pageRef := pageRef s + 1\<rparr>)
      else case getNextCursor opts of
        None \<Rightarrow> (Inr (), s)
      | Some g \<Rightarrow>
          (case g response of
             Inl t \<Rightarrow> (Inl t, s)
           | Inr nextCursor \<Rightarrow> (Inr (), s\<lparr>cursorRef := nextCursor\<rparr>)))"

text \<open>The \<open>try\<close> block from \<open>getData(response)\<close> on: \<open>Inl\<close> is a throw, \<open>Inr\<close> the \<open>return\<close>.\<close>

definition try_rest ::
  "('d, 'i) options \<Rightarrow> bool \<Rightarrow> 'd \<Rightarrow> ('d, 'i) hook_state
     \<Rightarrow> (thrown + load_result) \<times> ('d, 'i) hook_state" where
  "try_rest opts isLoadMore response s =
     (case getData opts response of
        Inl t \<Rightarrow> (Inl t, s)
      | Inr newItems \<Rightarrow>
          let allItems = (if isLoadMore then itemsRef s @ newItems else newItems);
              s1 = s\<lparr>items := allItems, itemsRef := allItems\<rparr>
          in case advance opts response s1 of
               (Inl t, s2) \<Rightarrow> (Inl t, s2)
             | (Inr u, s2) \<Rightarrow>
                 (case checkHasMore opts response allItems s2 of
                    (Inl t, s3) \<Rightarrow> (Inl t, s3)
                  | (Inr moreAvailable, s3) \<Rightarrow>
                      let s4 = s3\<lparr>hasMore := moreAvailable, hasMoreRef := moreAvailable\<rparr>;
                          s5 = (if onSuccess opts
                                then s4\<lparr>calls := calls s4 @ [OnSuccessCall response allItems]\<rparr>
                                else s4)
                      in (Inr \<lparr>itemsCount = length allItems, result_hasMore = moreAvailable\<rparr>,
                          s5)))"

text \<open>\<open>err instanceof Error ? err : new Error('Unknown error')\<close>\<close>

definition normalize_error :: "thrown \<Rightarrow> js_error" where
  "normalize_error t = (case t of ThrownError e \<Rightarrow> e | ThrownOther \<Rightarrow> Error ''Unknown error'')"

definition catch_block ::
  "('d, 'i) options \<Rightarrow> thrown \<Rightarrow> ('d, 'i) hook_state \<Rightarrow> load_result \<times> ('d, 'i) hook_state" where
  "catch_block opts err s =
     (let e = normalize_error err;
          s1 = s\<lparr>error := Some e\<rparr>;
          s2 = (if onError opts then s1\<lparr>calls := calls s1 @ [OnErrorCall e]\<rparr> else s1)
      in (snapshot s2, s2))"

definition finally_block :: "('d, 'i) hook_state \<Rightarrow> ('d, 'i) hook_state" where
  "finally_block s = s\<lparr>isLoading := False, isLoadingMore := False, isFetchingRef := False\<rparr>"

definition fetchData_resume ::
  "('d, 'i) options \<Rightarrow> bool \<Rightarrow> 'd outcome \<Rightarrow> ('d, 'i) hook_state
     \<Rightarrow> load_result \<times> ('d, 'i) hook_state" where
  "fetchData_resume opts isLoadMore settled s =
     (case (case settled of
              Rejected t \<Rightarrow> (Inl t, s)
            | Resolved response \<Rightarrow> try_rest opts isLoadMore response s) of
        (Inl t, s1) \<Rightarrow>
          (case catch_block opts t s1 of (result, s2) \<Rightarrow> (result, finally_block s2))
      | (Inr result, s1) \<Rightarrow> (result, finally_block s1))"

text \<open>
  A whole call of \<open>fetchData\<close> with nothing else running while it is suspended. The
  fetcher is a function of the outside world \<open>'w\<close> and the parameters, giving how its
  promise settles and the new outside world.
\<close>

definition fetchData ::
  "('d, 'i) options \<Rightarrow> ('w \<Rightarrow> params \<Rightarrow> 'd outcome \<times> 'w) \<Rightarrow> bool
     \<Rightarrow> ('d, 'i) hook_state \<times> 'w \<Rightarrow> load_result \<times> ('d, 'i) hook_state \<times> 'w" where
  "fetchData opts fetcher isLoadMore sw =
     (case sw of (s, w) \<Rightarrow>
        (case fetchData_begin opts isLoadMore s of
           (Returned result, s1) \<Rightarrow> (result, s1, w)
         | (Awaiting ps, s1) \<Rightarrow>
             (case fetcher w ps of (settled, w1) \<Rightarrow>
                (case fetchData_resume opts isLoadMore settled s1 of
                   (result, s2) \<Rightarrow> (result, s2, w1)))))"

subsection \<open>loadMore, loadUntilCount, reset\<close>

text \<open>
  \<open>loadMore\<close> closes over the \<open>isLoadingMore\<close> and \<open>isLoading\<close> of the render that created
  it; they are the two boolean arguments. Its body up to the \<open>await\<close>:
\<close>

definition loadMore_begin ::
  "('d, 'i) options \<Rightarrow> bool \<Rightarrow> bool \<Rightarrow> ('d, 'i) hook_state \<Rightarrow> started \<times> ('d, 'i) hook_state"
  where
  "loadMore_begin opts isLoadingMore_seen isLoading_seen s =
     (if \<not> hasMoreRef s \<or> isLoadingMore_seen \<or> isLoading_seen then (Returned (snapshot s), s)
      else fetchData_begin opts True s)"

text \<open>
  The \<open>while\<close> loop of \<open>loadUntilCount\<close>, each \<open>await fetchData(true)\<close> running to its end.
  The last argument is not in the source: it collects, for every call of \<open>fetchData\<close> the
  loop makes, the state the call was made in and its result. The loop never reads it.
\<close>

function loadUntilCount_loop ::
  "('d, 'i) options \<Rightarrow> ('w \<Rightarrow> params \<Rightarrow> 'd outcome \<times> 'w) \<Rightarrow> int \<Rightarrow> int \<Rightarrow> int
     \<Rightarrow> ('d, 'i) hook_state \<times> 'w \<Rightarrow> (('d, 'i) hook_state \<times> load_result) list
     \<Rightarrow> (('d, 'i) hook_state \<times> 'w) \<times> (('d, 'i) hook_state \<times> load_result) list" where
  "loadUntilCount_loop opts fetcher targetCount maxAttempts attempts sw made =
     (if int (length (itemsRef (fst sw))) < targetCount \<and> hasMoreRef (fst sw)
         \<and> attempts < maxAttempts
      then
        (case fetchData opts fetcher True sw of
           (result, s1, w1) \<Rightarrow>
             if \<not> result_hasMore result then ((s1, w1), made @ [(fst sw, result)])
             else loadUntilCount_loop opts fetcher targetCount maxAttempts (attempts + 1)
                    (s1, w1) (made @ [(fst sw, result)]))
      else (sw, made))"
  by pat_completeness auto
termination
  by (relation "measure (\<lambda>(opts, fetcher, targetCount, maxAttempts, attempts, sw, made).
                   nat (maxAttempts - attempts))") auto

declare loadUntilCount_loop.simps [simp del]

text \<open>\<open>loadUntilCount(targetCount, maxAttempts = 100)\<close>: the result and the state after it.\<close>

definition loadUntilCount ::
  "('d, 'i) options \<Rightarrow> ('w \<Rightarrow> params \<Rightarrow> 'd outcome \<times> 'w) \<Rightarrow> int \<Rightarrow> int
     \<Rightarrow> ('d, 'i) hook_state \<times> 'w \<Rightarrow> load_result \<times> ('d, 'i) hook_state \<times> 'w" where
  "loadUntilCount opts fetcher targetCount maxAttempts sw =
     (case loadUntilCount_loop opts fetcher targetCount maxAttempts 0 sw [] of
        ((s1, w1), made) \<Rightarrow> (snapshot s1, s1, w1))"

text \<open>The calls of \<open>fetchData\<close> that \<open>loadUntilCount\<close> makes, in order.\<close>

definition loadUntilCount_calls ::
  "('d, 'i) options \<Rightarrow> ('w \<Rightarrow> params \<Rightarrow> 'd outcome \<times> 'w) \<Rightarrow> int \<Rightarrow> int
     \<Rightarrow> ('d, 'i) hook_state \<times> 'w \<Rightarrow> (('d, 'i) hook_state \<times> load_result) list" where
  "loadUntilCount_calls opts fetcher targetCount maxAttempts sw =
     snd (loadUntilCount_loop opts fetcher targetCount maxAttempts 0 sw [])"

definition reset :: "('d, 'i) options \<Rightarrow> ('d, 'i) hook_state \<Rightarrow> ('d, 'i) hook_state" where
  "reset opts s =
     s\<lparr>items := [], error := None, hasMore := True, isLoading := False, isLoadingMore := False,
       pageRef := initial_page opts, cursorRef := initial_cursor opts, totalRef := None,
       isFetchingRef := False, isInitializedRef := False, itemsRef := [], hasMoreRef := True\<rparr>"

text \<open>The number of calls of the fetcher among the recorded calls.\<close>

fun fetcher_calls :: "('d, 'i) call list \<Rightarrow> nat" where
  "fetcher_calls [] = 0"
| "fetcher_calls (FetcherCall ps # cs) = Suc (fetcher_calls cs)"
| "fetcher_calls (c # cs) = fetcher_calls cs"

subsection \<open>Interleaved operation\<close>

text \<open>
  Between the start of a fetch and the settling of its promise other operations of the
  same instance can run. An event is one uninterrupted turn of the controller:
  \<^item> \<open>LoadMore a b\<close>: \<open>loadMore()\<close> is called, from a render that saw
    \<open>isLoadingMore = a\<close> and \<open>isLoading = b\<close>;
  \<^item> \<open>FetchDataCall b\<close>: \<open>fetchData(b)\<close> is called directly: \<open>fetchData(true)\<close> by an
    iteration of \<open>loadUntilCount\<close>, \<open>fetchData(false)\<close> by \<open>refresh\<close> after its timer;
  \<^item> \<open>Reset\<close>: \<open>reset()\<close> is called, on its own or as the first step of \<open>refresh\<close>;
  \<^item> \<open>InitialFetchEffect e\<close>: the body of the initial-fetch effect runs (at mount and
    whenever one of its dependencies has changed), with \<open>enabled = e\<close>;
  \<^item> \<open>Settle k o\<close>: the promise of the \<open>k\<close>-th outstanding fetcher call settles with \<open>o\<close>
    and the suspended \<open>fetchData\<close> resumes.
  The system state is the hook state and the list of suspended \<open>fetchData\<close> calls, each
  with the \<open>isLoadMore\<close> argument it was called with, oldest first.
\<close>

datatype 'd event =
    LoadMore bool bool
  | FetchDataCall bool
  | Reset
  | InitialFetchEffect bool
  | Settle nat "'d outcome"

definition suspend ::
  "started \<times> ('d, 'i) hook_state \<Rightarrow> bool \<Rightarrow> bool list \<Rightarrow> ('d, 'i) hook_state \<times> bool list" where
  "suspend r isLoadMore outstanding =
     (case r of
        (Returned result, s) \<Rightarrow> (s, outstanding)
      | (Awaiting ps, s) \<Rightarrow> (s, outstanding @ [isLoadMore]))"

fun step ::
  "('d, 'i) options \<Rightarrow> 'd event \<Rightarrow> ('d, 'i) hook_state \<times> bool list
     \<Rightarrow> ('d, 'i) hook_state \<times> bool list" where
  "step opts (LoadMore a b) (s, outstanding) =
     suspend (loadMore_begin opts a b s) True outstanding"
| "step opts (FetchDataCall isLoadMore) (s, outstanding) =
     suspend (fetchData_begin opts isLoadMore s) isLoadMore outstanding"
| "step opts Reset (s, outstanding) = (reset opts s, outstanding)"
| "step opts (InitialFetchEffect enabled) (s, outstanding) =
     (if enabled \<and> \<not> isInitializedRef s
      then suspend (fetchData_begin opts False (s\<lparr>isInitializedRef := True\<rparr>)) False outstanding
      else (s, outstanding))"
| "step opts (Settle k settled) (s, outstanding) =
     (if k < length outstanding
      then (snd (fetchData_resume opts (outstanding ! k) settled s),
            take k outstanding @ drop (Suc k) outstanding)
      else (s, outstanding))"

fun run ::
  "('d, 'i) options \<Rightarrow> 'd event list \<Rightarrow> ('d, 'i) hook_state \<times> bool list
     \<Rightarrow> ('d, 'i) hook_state \<times> bool list" where
  "run opts [] st = st"
| "run opts (ev # evs) st = run opts evs (step opts ev st)"

text \<open>The number of fetches in flight.\<close>

definition in_flight :: "('d, 'i) hook_state \<times> bool list \<Rightarrow> nat" where
  "in_flight st = length (snd st)"

text \<open>
  \<open>resets_when_idle opts evs st\<close>: in the run of \<open>evs\<close> from \<open>st\<close>, every \<open>Reset\<close> happens
  while no fetch is in flight.
\<close>

fun resets_when_idle ::
  "('d, 'i) options \<Rightarrow> 'd event list \<Rightarrow> ('d, 'i) hook_state \<times> bool list \<Rightarrow> bool" where
  "resets_when_idle opts [] st = True"
| "resets_when_idle opts (ev # evs) st =
     ((ev \<noteq> Reset \<or> in_flight st = 0) \<and> resets_when_idle opts evs (step opts ev st))"

text \<open>
  The number of requests that runs of the initial-fetch effect issue in the run of \<open>evs\<close>
  from \<open>st\<close>: the automatic fetches.
\<close>

fun automatic_fetches ::
  "('d, 'i) options \<Rightarrow> 'd event list \<Rightarrow> ('d, 'i) hook_state \<times> bool list \<Rightarrow> nat" where
  "automatic_fetches opts [] st = 0"
| "automatic_fetches opts (InitialFetchEffect enabled # evs) st =
     (if in_flight (step opts (InitialFetchEffect enabled) st) > in_flight st then 1 else 0)
       + automatic_fetches opts evs (step opts (InitialFetchEffect enabled) st)"
| "automatic_fetches opts (ev # evs) st = automatic_fetches opts evs (step opts ev st)"

subsection \<open>Example configurations\<close>

text \<open>
  A response as the example APIs of the repository return it: the items (here numbers), a
  total count, and the paging information. \<open>res_next = None\<close> is a response without a
  paging object, \<open>Some c\<close> one whose next cursor is \<open>c\<close> (\<open>null\<close> or a string).
\<close>

record response =
  res_data :: "nat list"
  res_total :: int
  res_next :: "string option option"

text \<open>Page mode with \<open>getData\<close> and \<open>getTotal\<close>, as in the README's quick start.\<close>

definition page_total_options :: "(response, nat) options" where
  "page_total_options =
     \<lparr>pagination = PagePagination None (Some 20),
      getData = (\<lambda>res. Inr (res_data res)),
      getTotal = Some (\<lambda>res. Inr (res_total res)),
      getNextCursor = None, hasMoreFn = None, onSuccess = False, onError = True\<rparr>"

text \<open>Page mode with \<open>getData\<close> only: the full-page rule decides \<open>hasMore\<close>.\<close>

definition page_plain_options :: "(response, nat) options" where
  "page_plain_options =
     \<lparr>pagination = PagePagination None (Some 20),
      getData = (\<lambda>res. Inr (res_data res)),
      getTotal = None, getNextCursor = None, hasMoreFn = None,
      onSuccess = False, onError = True\<rparr>"

text \<open>
  Cursor mode with \<open>getNextCursor: (res) => res.paging.next\<close>, which throws a
  \<open>TypeError\<close> on a response without a paging object.
\<close>

definition cursor_options :: "(response, nat) options" where
  "cursor_options =
     \<lparr>pagination = CursorPagination None (Some 2),
      getData = (\<lambda>res. Inr (res_data res)),
      getTotal = None,
      getNextCursor = Some (\<lambda>res. case res_next res of
                                      None \<Rightarrow> Inl (ThrownError (Error ''TypeError''))
                                    | Some c \<Rightarrow> Inr c),
      hasMoreFn = None, onSuccess = False, onError = True\<rparr>"

text \<open>Page mode with a custom \<open>hasMore\<close>: more while fewer than five items are loaded.\<close>

definition custom_options :: "(response, nat) options" where
  "custom_options =
     \<lparr>pagination = PagePagination None (Some 20),
      getData = (\<lambda>res. Inr (res_data res)),
      getTotal = Some (\<lambda>res. Inr (res_total res)),
      getNextCursor = None,
      hasMoreFn = Some (\<lambda>res allItems. Inr (length allItems < 5)),
      onSuccess = True, onError = True\<rparr>"

text \<open>
  A full page of \<open>lm\<close> consecutive numbers, and a fetcher that answers every request
  with one; the outside world has no state.
\<close>

definition numbered_page :: "int \<Rightarrow> int \<Rightarrow> response" where
  "numbered_page page lm =
     \<lparr>res_data = map (\<lambda>k. nat ((page - 1) * lm) + k) [1..<Suc (nat lm)],
      res_total = 10000, res_next = Some None\<rparr>"

fun full_page_fetcher :: "unit \<Rightarrow> params \<Rightarrow> response outcome \<times> unit" where
  "full_page_fetcher w (PageParams page lm) = (Resolved (numbered_page page lm), w)"
| "full_page_fetcher w (CursorParams c lm) = (Resolved (numbered_page 1 lm), w)"

text \<open>
  A cursor API with two pages: the first answers with the items \<open>1, 2\<close> and the next
  cursor \<open>c1\<close>; the page at \<open>c1\<close> answers with the items \<open>3, 4\<close> and no paging object.
\<close>

fun two_page_fetcher :: "unit \<Rightarrow> params \<Rightarrow> response outcome \<times> unit" where
  "two_page_fetcher w (CursorParams None lm) =
     (Resolved \<lparr>res_data = [1, 2], res_total = 4, res_next = Some (Some ''c1'')\<rparr>, w)"
| "two_page_fetcher w (CursorParams (Some c) lm) =
     (Resolved \<lparr>res_data = [3, 4], res_total = 4, res_next = None\<rparr>, w)"
| "two_page_fetcher w (PageParams page lm) = (Rejected ThrownOther, w)"

text \<open>The state of the cursor example after its initial fetch.\<close>

definition after_first_page :: "(response, nat) hook_state \<times> unit" where
  "after_first_page =
     snd (fetchData cursor_options two_page_fetcher False (initial_state cursor_options, ()))"

section \<open>Properties of the numbers\<close>

subsection \<open>Rounding is monotone and idempotent\<close>

lemma rne_floor: "\<lfloor>x\<rfloor> \<le> rne x \<and> rne x \<le> \<lfloor>x\<rfloor> + 1"
  by (simp add: rne_def Let_def)

lemma rne_of_int: "rne (of_int k) = k"
  by (simp add: rne_def)

lemma rne_mono: "x \<le> y \<Longrightarrow> rne x \<le> rne y"
proof -
  assume xy: "x \<le> y"
  then have "\<lfloor>x\<rfloor> \<le> \<lfloor>y\<rfloor>" by (rule floor_mono)
  then consider (lt) "\<lfloor>x\<rfloor> < \<lfloor>y\<rfloor>" | (eq) "\<lfloor>x\<rfloor> = \<lfloor>y\<rfloor>" by linarith
  then show ?thesis
  proof cases
    case lt
    then show ?thesis using rne_floor[of x] rne_floor[of y] by linarith
  next
    case eq
    then show ?thesis using xy by (simp add: rne_def Let_def)
  qed
qed

lemma of_int_le_pow2: "k \<le> 2 ^ n \<Longrightarrow> (of_int k :: real) \<le> 2 ^ n"
  using of_int_le_iff[of k "2 ^ n", where 'a = real] by simp

lemma pow2_le_of_int: "2 ^ n \<le> k \<Longrightarrow> (2 ^ n :: real) \<le> of_int k"
  using of_int_le_iff[of "2 ^ n" k, where 'a = real] by simp

lemma rne_ge: "of_int a \<le> x \<Longrightarrow> a \<le> rne x"
  using rne_mono[of "of_int a" x] by (simp add: rne_of_int)

lemma rne_le: "x \<le> of_int b \<Longrightarrow> rne x \<le> b"
  using rne_mono[of x "of_int b"] by (simp add: rne_of_int)

lemma powi_shift: "(2::real) powi (e + numeral k) = 2 powi e * 2 ^ numeral k"
  by (simp add: power_int_add)

lemma fl_scaled_closed:
  "0 < m \<Longrightarrow> - 1074 \<le> e \<Longrightarrow>
     \<exists>q. quantum (m * 2 powi e) q \<and>
         fl_scaled m e = of_int (rne (m * 2 powi e / 2 powi q)) * 2 powi q"
proof (induction m e rule: fl_scaled.induct)
  case (1 m e)
  note unf = fl_scaled.simps[of m e]
  consider (up) "2 ^ 53 \<le> m" | (down) "\<not> 2 ^ 53 \<le> m" "m < 2 ^ 52 \<and> - 1074 < e"
    | (stop) "\<not> 2 ^ 53 \<le> m" "\<not> (m < 2 ^ 52 \<and> - 1074 < e)" by blast
  then show ?case
  proof cases
    case up
    have eq: "fl_scaled m e = fl_scaled (m / 2) (e + 1)" using up by (subst unf) simp
    have x: "m / 2 * 2 powi (e + 1) = m * 2 powi e" by (simp add: power_int_add)
    from "1.IH"(1)[OF up] "1.prems" show ?thesis unfolding eq x by simp
  next
    case down
    have eq: "fl_scaled m e = fl_scaled (2 * m) (e - 1)" using down by (subst unf) simp
    have x: "2 * m * 2 powi (e - 1) = m * 2 powi e" by (simp add: power_int_diff)
    from "1.IH"(2)[OF down] "1.prems" down show ?thesis unfolding eq x by simp
  next
    case stop
    have c2: "(m < 2 ^ 52 \<and> - 1074 < e) = False" using stop(2) by simp
    have eq: "fl_scaled m e = of_int (rne m) * 2 powi e"
      by (subst unf) (simp only: stop(1) c2 if_False)
    have p: "(0::real) < 2 powi e" by (simp add: zero_less_power_int)
    have "m * 2 powi e < 2 ^ 53 * 2 powi e" using stop(1) p by simp
    then have a: "m * 2 powi e < 2 powi (e + 53)" by (simp add: powi_shift mult.commute)
    have b: "e = - 1074 \<or> 2 powi (e + 52) \<le> m * 2 powi e"
    proof (cases "m < 2 ^ 52")
      case True
      with stop(2) "1.prems" show ?thesis by simp
    next
      case False
      then have "2 ^ 52 * 2 powi e \<le> m * 2 powi e" using p by simp
      then show ?thesis by (simp add: powi_shift mult.commute)
    qed
    have "quantum (m * 2 powi e) e" using a b "1.prems" by (simp add: quantum_def)
    moreover have "m * 2 powi e / 2 powi e = m" using p by simp
    ultimately show ?thesis using eq by auto
  qed
qed

lemma fl_scaled_form:
  assumes "0 < x"
  obtains q where "quantum x q" "fl_scaled x 0 = of_int (rne (x / 2 powi q)) * 2 powi q"
  using fl_scaled_closed[OF assms, of 0] by auto

lemma quantum_le:
  assumes "quantum x q" "quantum y r" "x \<le> y"
  shows "q \<le> r"
proof (rule ccontr)
  assume "\<not> q \<le> r"
  then have rq: "r < q" by simp
  with assms(2) have "q \<noteq> - 1074" by (simp add: quantum_def)
  with assms(1) have "2 powi (q + 52) \<le> x" by (simp add: quantum_def)
  moreover have "y < 2 powi (r + 53)" using assms(2) by (simp add: quantum_def)
  moreover have "(2::real) powi (r + 53) \<le> 2 powi (q + 52)"
    using rq by (intro power_int_increasing) simp_all
  ultimately show False using assms(3) by simp
qed

lemma fl_scaled_nonneg: "0 < x \<Longrightarrow> 0 \<le> fl_scaled x 0"
proof -
  assume x: "0 < x"
  then obtain q where q: "fl_scaled x 0 = of_int (rne (x / 2 powi q)) * 2 powi q"
    by (rule fl_scaled_form)
  have p: "(0::real) < 2 powi q" by (simp add: zero_less_power_int)
  have "of_int 0 \<le> x / 2 powi q" using x p by simp
  then have "0 \<le> rne (x / 2 powi q)" by (rule rne_ge)
  then show ?thesis using p by (simp add: q)
qed

lemma fl_scaled_mono:
  assumes x: "0 < x" and xy: "x \<le> y"
  shows "fl_scaled x 0 \<le> fl_scaled y 0"
proof -
  from x xy have y: "0 < y" by simp
  from x obtain q where q: "quantum x q" "fl_scaled x 0 = of_int (rne (x / 2 powi q)) * 2 powi q"
    by (rule fl_scaled_form)
  from y obtain r where r: "quantum y r" "fl_scaled y 0 = of_int (rne (y / 2 powi r)) * 2 powi r"
    by (rule fl_scaled_form)
  have pq: "(0::real) < 2 powi q" and pr: "(0::real) < 2 powi r"
    by (simp_all add: zero_less_power_int)
  from quantum_le[OF q(1) r(1) xy] consider (eq) "q = r" | (lt) "q < r" by linarith
  then show ?thesis
  proof cases
    case eq
    have "x / 2 powi r \<le> y / 2 powi r" using xy pr by (simp add: divide_right_mono)
    then have "rne (x / 2 powi r) \<le> rne (y / 2 powi r)" by (rule rne_mono)
    then show ?thesis using pr by (simp add: q r eq)
  next
    case lt
    have "x / 2 powi q \<le> 2 ^ 53"
      using q(1) pq by (simp add: quantum_def powi_shift pos_divide_le_eq mult.commute)
    then have "x / 2 powi q \<le> of_int (2 ^ 53)" by simp
    then have "rne (x / 2 powi q) \<le> 2 ^ 53" by (rule rne_le)
    then have "(of_int (rne (x / 2 powi q)) :: real) \<le> 2 ^ 53" by (rule of_int_le_pow2)
    then have "of_int (rne (x / 2 powi q)) * 2 powi q \<le> (2 ^ 53 :: real) * 2 powi q"
      using pq by simp
    then have a: "fl_scaled x 0 \<le> 2 powi (q + 53)" by (simp add: q powi_shift mult.commute)
    have b: "(2::real) powi (q + 53) \<le> 2 powi (r + 52)"
      using lt by (intro power_int_increasing) simp_all
    from lt q(1) have "r \<noteq> - 1074" by (simp add: quantum_def)
    with r(1) have "2 powi (r + 52) \<le> y" by (simp add: quantum_def)
    then have "2 ^ 52 \<le> y / 2 powi r"
      using pr by (simp add: powi_shift pos_le_divide_eq mult.commute)
    then have "of_int (2 ^ 52) \<le> y / 2 powi r" by simp
    then have "2 ^ 52 \<le> rne (y / 2 powi r)" by (rule rne_ge)
    then have "(2 ^ 52 :: real) \<le> of_int (rne (y / 2 powi r))" by (rule pow2_le_of_int)
    then have "(2 ^ 52 :: real) * 2 powi r \<le> of_int (rne (y / 2 powi r)) * 2 powi r"
      using pr by simp
    then have c: "2 powi (r + 52) \<le> fl_scaled y 0" by (simp add: r powi_shift mult.commute)
    from a b c show ?thesis by linarith
  qed
qed

lemma fl_mono: "x \<le> y \<Longrightarrow> fl x \<le> fl y"
proof -
  assume xy: "x \<le> y"
  consider (a) "0 < x" | (b) "x \<le> 0" "0 \<le> y" | (c) "y < 0" by linarith
  then show ?thesis
  proof cases
    case a
    with xy show ?thesis using fl_scaled_mono[of x y] by (simp add: fl_def)
  next
    case b
    have "fl x \<le> 0" using b fl_scaled_nonneg[of "- x"] by (simp add: fl_def)
    moreover have "0 \<le> fl y" using b fl_scaled_nonneg[of y] by (simp add: fl_def)
    ultimately show ?thesis by simp
  next
    case c
    with xy show ?thesis using fl_scaled_mono[of "- y" "- x"] by (simp add: fl_def)
  qed
qed

lemma fl_scaled_exact:
  assumes k: "0 < k" "k \<le> 2 ^ 53" and j: "- 1074 \<le> j"
  shows "fl_scaled (of_int k * 2 powi j) 0 = of_int k * 2 powi j"
proof -
  let ?x = "of_int k * 2 powi j :: real"
  have pj: "(0::real) < 2 powi j" by (simp add: zero_less_power_int)
  have x: "0 < ?x" using k pj by simp
  then obtain q where q: "quantum ?x q" "fl_scaled ?x 0 = of_int (rne (?x / 2 powi q)) * 2 powi q"
    by (rule fl_scaled_form)
  have pq: "(0::real) < 2 powi q" by (simp add: zero_less_power_int)
  have "\<exists>n::int. ?x / 2 powi q = of_int n"
  proof (cases "q \<le> j")
    case True
    have "?x / 2 powi q = of_int k * 2 powi (j - q)" by (simp add: power_int_diff)
    also have "\<dots> = of_int k * 2 ^ nat (j - q)" using True by (simp add: power_int_def)
    also have "\<dots> = of_int (k * 2 ^ nat (j - q))" by simp
    finally show ?thesis by blast
  next
    case False
    with j have "q \<noteq> - 1074" by simp
    with q(1) have lo: "2 powi (q + 52) \<le> ?x" by (simp add: quantum_def)
    have "(of_int k :: real) \<le> 2 ^ 53" using k(2) by (rule of_int_le_pow2)
    then have "?x \<le> 2 ^ 53 * 2 powi j" using pj by simp
    then have hi: "?x \<le> 2 powi (j + 53)" by (simp add: powi_shift mult.commute)
    have "q + 52 \<le> j + 53"
    proof (rule ccontr)
      assume "\<not> q + 52 \<le> j + 53"
      then have "(2::real) powi (j + 53) < 2 powi (q + 52)"
        by (intro power_int_strict_increasing) simp_all
      with lo hi show False by simp
    qed
    with False have qj: "q = j + 1" by simp
    have "2 powi (j + 53) \<le> ?x" using lo by (simp add: qj add.commute add.left_commute)
    with hi have "?x = 2 powi (j + 53)" by simp
    then have "?x / 2 powi q = 2 powi (j + 53) / 2 powi (j + 1)" by (simp add: qj)
    also have "\<dots> = 2 powi ((j + 53) - (j + 1))" by (subst power_int_diff) simp_all
    also have "\<dots> = of_int (2 ^ 52)" by simp
    finally show ?thesis by blast
  qed
  then obtain n :: int where n: "?x / 2 powi q = of_int n" by blast
  then have "of_int n * 2 powi q = ?x" using pq by (simp add: field_simps)
  then show ?thesis by (simp only: q(2) n rne_of_int)
qed

lemma fl_scaled_fl:
  assumes x: "0 < x"
  shows "fl (fl_scaled x 0) = fl_scaled x 0"
proof -
  from x obtain q where q: "quantum x q" "fl_scaled x 0 = of_int (rne (x / 2 powi q)) * 2 powi q"
    by (rule fl_scaled_form)
  define n where "n = rne (x / 2 powi q)"
  have pq: "(0::real) < 2 powi q" by (simp add: zero_less_power_int)
  have "of_int 0 \<le> x / 2 powi q" using x pq by simp
  then have n0: "0 \<le> n" unfolding n_def by (rule rne_ge)
  have "x / 2 powi q \<le> 2 ^ 53"
    using q(1) pq by (simp add: quantum_def powi_shift pos_divide_le_eq mult.commute)
  then have "x / 2 powi q \<le> of_int (2 ^ 53)" by simp
  then have n1: "n \<le> 2 ^ 53" unfolding n_def by (rule rne_le)
  have jq: "- 1074 \<le> q" using q(1) by (simp add: quantum_def)
  show ?thesis
  proof (cases "n = 0")
    case True
    then show ?thesis by (simp add: q(2) n_def[symmetric] fl_def)
  next
    case False
    with n0 have "0 < n" by simp
    then have "0 < (of_int n :: real) * 2 powi q" using pq by simp
    with fl_scaled_exact[OF \<open>0 < n\<close> n1 jq]
    show ?thesis by (simp add: q(2) n_def[symmetric] fl_def)
  qed
qed

lemma fl_idem: "fl (fl x) = fl x"
proof -
  consider (z) "x = 0" | (p) "0 < x" | (n) "x < 0" by linarith
  then show ?thesis
  proof cases
    case z
    then show ?thesis by (simp add: fl_def)
  next
    case p
    then show ?thesis using fl_scaled_fl[of x] by (simp add: fl_def)
  next
    case n
    define v where "v = fl_scaled (- x) 0"
    have v0: "0 \<le> v" using n fl_scaled_nonneg[of "- x"] by (simp add: v_def)
    have fv: "fl v = v" using n fl_scaled_fl[of "- x"] by (simp add: v_def)
    have fx: "fl x = - v" using n by (simp add: fl_def v_def)
    have "fl (- v) = - v"
    proof (cases "v = 0")
      case True
      then show ?thesis by (simp add: fl_def)
    next
      case False
      with v0 have "0 < v" by simp
      then have "fl v = fl_scaled v 0" "fl (- v) = - fl_scaled v 0" by (simp_all add: fl_def)
      with fv show ?thesis by simp
    qed
    then show ?thesis by (simp add: fx)
  qed
qed

lemma is_double_fl: "is_double (fl x)"
  by (simp add: is_double_def fl_idem)

lemma is_double_0: "is_double 0"
  by (simp add: is_double_def fl_def)

lemma is_double_of_int:
  assumes "\<bar>k\<bar> \<le> 2 ^ 53"
  shows "is_double (of_int k)"
proof -
  consider (z) "k = 0" | (p) "0 < k" | (n) "k < 0" by linarith
  then show ?thesis
  proof cases
    case z
    then show ?thesis by (simp add: is_double_0)
  next
    case p
    with assms have "k \<le> 2 ^ 53" by simp
    from fl_scaled_exact[OF p this, of 0] p show ?thesis by (simp add: is_double_def fl_def)
  next
    case n
    with assms have "0 < - k" "- k \<le> 2 ^ 53" by simp_all
    from fl_scaled_exact[OF this, of 0] n show ?thesis by (simp add: is_double_def fl_def)
  qed
qed

lemma is_double_fadd: "is_double (fadd x y)"
  by (simp add: fadd_def is_double_fl)

lemma fadd_increasing: "is_double s \<Longrightarrow> 0 \<le> h \<Longrightarrow> s \<le> fadd s h"
  using fl_mono[of s "s + h"] by (simp add: fadd_def is_double_def)

lemma fadd_zero: "is_double s \<Longrightarrow> fadd s 0 = s"
  by (simp add: fadd_def is_double_def)

lemma fadd_zero_left: "is_double t \<Longrightarrow> fadd 0 t = t"
  by (simp add: fadd_def is_double_def)

text \<open>Whole numbers up to \<open>2 ^ 53\<close> are added exactly.\<close>

lemma fadd_of_nat: "a + b \<le> 2 ^ 53 \<Longrightarrow> fadd (real a) (real b) = real (a + b)"
proof -
  assume "a + b \<le> 2 ^ 53"
  then have "\<bar>int (a + b)\<bar> \<le> 2 ^ 53" by (simp add: of_nat_le_iff[of "a + b" "2 ^ 53", where 'a = int, simplified])
  from is_double_of_int[OF this] show ?thesis by (simp add: fadd_def is_double_def)
qed

lemma fl_minus: "fl (- x) = - fl x"
  by (simp add: fl_def)

lemma fl_numeral: "(numeral k :: int) \<le> 2 ^ 53 \<Longrightarrow> fl (numeral k) = numeral k"
  using is_double_of_int[of "numeral k"] by (simp add: is_double_def)

lemma fl_zero: "fl 0 = 0"
  by (simp add: fl_def)

lemma fl_one: "fl 1 = 1"
  using is_double_of_int[of 1] by (simp add: is_double_def)

lemmas number_ops = fadd_def fsub_def fdiv_def fl_numeral fl_minus fl_zero fl_one

lemmas number_rounding = fl_def fl_scaled.simps rne_def Let_def

text \<open>
  Some numbers of the program: \<open>0.1\<close>, the sum \<open>0.1 + 0.2\<close>, which is
  \<open>0.30000000000000004\<close> and not \<open>0.3\<close>, and \<open>2 ^ 53 + 1\<close>, which is \<open>2 ^ 53\<close>.
\<close>

lemma rounding_examples:
  "fl (1 / 10) = 3602879701896397 / 2 ^ 55"
  "fadd (fl (1 / 10)) (fl (2 / 10)) = 1351079888211149 / 2 ^ 52"
  "fl (3 / 10) = 5404319552844595 / 2 ^ 54"
  "fadd (2 ^ 53) 1 = 2 ^ 53"
  by (simp_all add: fadd_def number_rounding)

section \<open>Properties of the windowing engine\<close>

subsection \<open>The position table holds the prefix sums\<close>

lemma positions_loop_inv:
  "i \<le> n \<Longrightarrow> off = prefix_sum ih i \<Longrightarrow>
     positions_loop ih n i off ps =
       (prefix_sum ih n,
        ps @ map (\<lambda>k. \<lparr>pos_start = prefix_sum ih k, pos_end = prefix_sum ih (Suc k),
                        pos_size = getItemHeight ih k\<rparr>) [i..<n])"
proof (induction ih n i off ps rule: positions_loop.induct)
  case (1 ih n i off ps)
  show ?case
  proof (cases "i < n")
    case True
    have u: "[i..<n] = i # [Suc i..<n]" using True by (simp add: upt_conv_Cons)
    have step: "positions_loop ih n i off ps =
        positions_loop ih n (i + 1) (fadd off (getItemHeight ih i))
          (ps @ [\<lparr>pos_start = off, pos_end = fadd off (getItemHeight ih i),
                   pos_size = getItemHeight ih i\<rparr>])"
      using True by (subst positions_loop.simps) (simp add: Let_def)
    have next_off: "fadd off (getItemHeight ih i) = prefix_sum ih (i + 1)"
      using "1.prems"(2) by simp
    have le: "i + 1 \<le> n" using True by simp
    show ?thesis
      unfolding step "1.IH"[OF True refl le next_off] using "1.prems"(2) by (simp add: u)
  next
    case False
    with "1.prems" have "i = n" by simp
    then show ?thesis using "1.prems"(2) by (subst positions_loop.simps) simp
  qed
qed

lemma itemPositions_eq:
  "itemPositions n ih =
     map (\<lambda>k. \<lparr>pos_start = prefix_sum ih k, pos_end = prefix_sum ih (Suc k),
                pos_size = getItemHeight ih k\<rparr>) [0..<n]"
  by (simp add: itemPositions_def positions_loop_inv)

lemma totalHeight_eq: "totalHeight n ih = prefix_sum ih n"
  by (simp add: totalHeight_def positions_loop_inv)

lemma length_itemPositions: "length (itemPositions n ih) = n"
  by (simp add: itemPositions_eq)

lemma nth_itemPositions:
  "i < n \<Longrightarrow> itemPositions n ih ! i =
     \<lparr>pos_start = prefix_sum ih i, pos_end = prefix_sum ih (Suc i),
      pos_size = getItemHeight ih i\<rparr>"
  by (simp add: itemPositions_eq)

lemma is_double_prefix_sum: "is_double (prefix_sum ih k)"
  by (cases k) (simp_all add: is_double_0 is_double_fadd)

lemma prefix_sum_mono:
  assumes nonneg: "\<forall>i<n. 0 \<le> getItemHeight ih i" and ij: "i \<le> j" "j \<le> n"
  shows "prefix_sum ih i \<le> prefix_sum ih j"
  using ij
proof (induction j)
  case 0
  then show ?case by simp
next
  case (Suc j)
  show ?case
  proof (cases "i = Suc j")
    case True
    then show ?thesis by simp
  next
    case False
    with Suc.prems have "i \<le> j" "j \<le> n" "j < n" by simp_all
    with Suc.IH have "prefix_sum ih i \<le> prefix_sum ih j" by simp
    also have "\<dots> \<le> fadd (prefix_sum ih j) (getItemHeight ih j)"
      using nonneg \<open>j < n\<close> by (intro fadd_increasing is_double_prefix_sum) simp
    finally show ?thesis by simp
  qed
qed

text \<open>Heights that are whole numbers, with a total up to \<open>2 ^ 53\<close>, are summed exactly.\<close>

lemma prefix_sum_exact:
  "\<forall>i<k. getItemHeight ih i = real (m i) \<Longrightarrow> (\<Sum>i<k. m i) \<le> 2 ^ 53 \<Longrightarrow>
     prefix_sum ih k = real (\<Sum>i<k. m i)"
proof (induction k)
  case 0
  show ?case by simp
next
  case (Suc k)
  have le: "(\<Sum>i<k. m i) + m k \<le> 2 ^ 53" using Suc.prems(2) by simp
  then have "(\<Sum>i<k. m i) \<le> 2 ^ 53" by simp
  with Suc have "prefix_sum ih k = real (\<Sum>i<k. m i)" by simp
  moreover have "getItemHeight ih k = real (m k)" using Suc.prems(1) by simp
  ultimately show ?case using fadd_of_nat[OF le] by simp
qed

subsection \<open>The two binary searches\<close>

lemma findStart_loop_range:
  "0 \<le> low \<Longrightarrow> low \<le> high + 1 \<Longrightarrow>
     low \<le> findStart_loop ps x low high \<and> findStart_loop ps x low high \<le> high + 1"
proof (induction ps x low high rule: findStart_loop.induct)
  case (1 ps x low high)
  note unf = findStart_loop.simps[of ps x low high]
  show ?case
  proof (cases "low \<le> high")
    case False
    with "1.prems" show ?thesis by (simp add: unf)
  next
    case True
    define mid where "mid = (low + high) div 2"
    have m: "low \<le> mid" "mid \<le> high" using True by (simp_all add: mid_def)
    show ?thesis
    proof (cases "entry_at ps mid")
      case None
      with True "1.prems" show ?thesis
        by (simp add: unf mid_def[symmetric])
    next
      case (Some pos)
      note ih1 = "1.IH"(1)[OF True mid_def Some]
      note ih2 = "1.IH"(2)[OF True mid_def Some]
      consider (a) "pos_end pos < x" | (b) "\<not> pos_end pos < x" "pos_start pos > x"
        | (c) "\<not> pos_end pos < x" "\<not> pos_start pos > x" by blast
      then show ?thesis
      proof cases
        case a
        have "findStart_loop ps x low high = findStart_loop ps x (mid + 1) high"
          using True Some a by (simp add: unf mid_def[symmetric])
        then show ?thesis using ih1[OF a] m "1.prems" by simp
      next
        case b
        have "findStart_loop ps x low high = findStart_loop ps x low (mid - 1)"
          using True Some b by (simp add: unf mid_def[symmetric])
        then show ?thesis using ih2[OF b] m "1.prems" by simp
      next
        case c
        have "findStart_loop ps x low high = mid"
          using True Some c by (simp add: unf mid_def[symmetric])
        then show ?thesis using m by simp
      qed
    qed
  qed
qed


lemma findEnd_loop_range:
  "0 \<le> low \<Longrightarrow> low \<le> high + 1 \<Longrightarrow> high < int (length ps) \<Longrightarrow> ps \<noteq> [] \<Longrightarrow>
     0 \<le> findEnd_loop ps t low high \<and> findEnd_loop ps t low high \<le> int (length ps) - 1"
proof (induction ps t low high rule: findEnd_loop.induct)
  case (1 ps t low high)
  note unf = findEnd_loop.simps[of ps t low high]
  have len: "1 \<le> int (length ps)" using "1.prems"(4) by (cases ps) simp_all
  show ?case
  proof (cases "low \<le> high")
    case False
    with "1.prems" len show ?thesis by (simp add: unf)
  next
    case True
    define mid where "mid = (low + high) div 2"
    have m: "low \<le> mid" "mid \<le> high" using True by (simp_all add: mid_def)
    show ?thesis
    proof (cases "entry_at ps mid")
      case None
      with True "1.prems" len show ?thesis
        by (simp add: unf mid_def[symmetric])
    next
      case (Some pos)
      note ih1 = "1.IH"(1)[OF True mid_def Some]
      note ih2 = "1.IH"(2)[OF True mid_def Some]
      consider (a) "pos_start pos > t" | (b) "\<not> pos_start pos > t" "pos_end pos < t"
        | (c) "\<not> pos_start pos > t" "\<not> pos_end pos < t" by blast
      then show ?thesis
      proof cases
        case a
        have "findEnd_loop ps t low high = findEnd_loop ps t low (mid - 1)"
          using True Some a by (simp add: unf mid_def[symmetric])
        then show ?thesis using ih1[OF a] m "1.prems" by simp
      next
        case b
        have "findEnd_loop ps t low high = findEnd_loop ps t (mid + 1) high"
          using True Some b by (simp add: unf mid_def[symmetric])
        then show ?thesis using ih2[OF b] m "1.prems" by simp
      next
        case c
        have "findEnd_loop ps t low high = mid"
          using True Some c by (simp add: unf mid_def[symmetric])
        then show ?thesis using m "1.prems" by simp
      qed
    qed
  qed
qed

lemma findStart_loop_found:
  "\<forall>i j. i \<le> j \<longrightarrow> j < length ps \<longrightarrow>
             pos_start (ps ! i) \<le> pos_start (ps ! j) \<and> pos_end (ps ! i) \<le> pos_end (ps ! j) \<Longrightarrow>
         0 \<le> low \<Longrightarrow> high < int (length ps) \<Longrightarrow> low \<le> k \<Longrightarrow> k \<le> high \<Longrightarrow>
         pos_start (ps ! nat k) \<le> x \<Longrightarrow> x \<le> pos_end (ps ! nat k) \<Longrightarrow>
         low \<le> findStart_loop ps x low high \<and> findStart_loop ps x low high \<le> high \<and>
         pos_start (ps ! nat (findStart_loop ps x low high)) \<le> x \<and>
         x \<le> pos_end (ps ! nat (findStart_loop ps x low high))"
proof (induction ps x low high rule: findStart_loop.induct)
  case (1 ps x low high)
  note unf = findStart_loop.simps[of ps x low high]
  note mono = "1.prems"(1)[rule_format]
  note mono' = "1.prems"(1)
  have True: "low \<le> high" using "1.prems" by simp
  define mid where "mid = (low + high) div 2"
  have m: "low \<le> mid" "mid \<le> high" using True by (simp_all add: mid_def)
  have e: "entry_at ps mid = Some (ps ! nat mid)"
    using m "1.prems" by (simp add: entry_at_def)
  note ih1 = "1.IH"(1)[OF True mid_def e]
  note ih2 = "1.IH"(2)[OF True mid_def e]
  consider (a) "pos_end (ps ! nat mid) < x"
    | (b) "\<not> pos_end (ps ! nat mid) < x" "pos_start (ps ! nat mid) > x"
    | (c) "\<not> pos_end (ps ! nat mid) < x" "\<not> pos_start (ps ! nat mid) > x" by blast
  then show ?case
  proof cases
    case a
    have eq: "findStart_loop ps x low high = findStart_loop ps x (mid + 1) high"
      using True e a by (simp add: unf mid_def[symmetric])
    have "mid < k"
    proof (rule ccontr)
      assume "\<not> mid < k"
      then have "nat k \<le> nat mid" "nat mid < length ps" using m "1.prems" by simp_all
      from mono[OF this] have "pos_end (ps ! nat k) \<le> pos_end (ps ! nat mid)" by simp
      with a "1.prems" show False by simp
    qed
    then show ?thesis using ih1[OF a mono'] "1.prems" m eq by simp
  next
    case b
    have eq: "findStart_loop ps x low high = findStart_loop ps x low (mid - 1)"
      using True e b by (simp add: unf mid_def[symmetric])
    have "k < mid"
    proof (rule ccontr)
      assume "\<not> k < mid"
      then have "nat mid \<le> nat k" "nat k < length ps" using m "1.prems" by simp_all
      from mono[OF this] have "pos_start (ps ! nat mid) \<le> pos_start (ps ! nat k)" by simp
      with b "1.prems" show False by simp
    qed
    then show ?thesis using ih2[OF b mono'] "1.prems" m eq by simp
  next
    case c
    have "findStart_loop ps x low high = mid"
      using True e c by (simp add: unf mid_def[symmetric])
    then show ?thesis using m c by simp
  qed
qed

lemma findEnd_loop_found:
  "\<forall>i j. i \<le> j \<longrightarrow> j < length ps \<longrightarrow>
             pos_start (ps ! i) \<le> pos_start (ps ! j) \<and> pos_end (ps ! i) \<le> pos_end (ps ! j) \<Longrightarrow>
         0 \<le> low \<Longrightarrow> high < int (length ps) \<Longrightarrow> low \<le> k \<Longrightarrow> k \<le> high \<Longrightarrow>
         pos_start (ps ! nat k) \<le> t \<Longrightarrow> t \<le> pos_end (ps ! nat k) \<Longrightarrow>
         low \<le> findEnd_loop ps t low high \<and> findEnd_loop ps t low high \<le> high \<and>
         pos_start (ps ! nat (findEnd_loop ps t low high)) \<le> t \<and>
         t \<le> pos_end (ps ! nat (findEnd_loop ps t low high))"
proof (induction ps t low high rule: findEnd_loop.induct)
  case (1 ps t low high)
  note unf = findEnd_loop.simps[of ps t low high]
  note mono = "1.prems"(1)[rule_format]
  note mono' = "1.prems"(1)
  have True: "low \<le> high" using "1.prems" by simp
  define mid where "mid = (low + high) div 2"
  have m: "low \<le> mid" "mid \<le> high" using True by (simp_all add: mid_def)
  have e: "entry_at ps mid = Some (ps ! nat mid)"
    using m "1.prems" by (simp add: entry_at_def)
  note ih1 = "1.IH"(1)[OF True mid_def e]
  note ih2 = "1.IH"(2)[OF True mid_def e]
  consider (a) "pos_start (ps ! nat mid) > t"
    | (b) "\<not> pos_start (ps ! nat mid) > t" "pos_end (ps ! nat mid) < t"
    | (c) "\<not> pos_start (ps ! nat mid) > t" "\<not> pos_end (ps ! nat mid) < t" by blast
  then show ?case
  proof cases
    case a
    have eq: "findEnd_loop ps t low high = findEnd_loop ps t low (mid - 1)"
      using True e a by (simp add: unf mid_def[symmetric])
    have "k < mid"
    proof (rule ccontr)
      assume "\<not> k < mid"
      then have "nat mid \<le> nat k" "nat k < length ps" using m "1.prems" by simp_all
      from mono[OF this] have "pos_start (ps ! nat mid) \<le> pos_start (ps ! nat k)" by simp
      with a "1.prems" show False by simp
    qed
    then show ?thesis using ih1[OF a mono'] "1.prems" m eq by simp
  next
    case b
    have eq: "findEnd_loop ps t low high = findEnd_loop ps t (mid + 1) high"
      using True e b by (simp add: unf mid_def[symmetric])
    have "mid < k"
    proof (rule ccontr)
      assume "\<not> mid < k"
      then have "nat k \<le> nat mid" "nat mid < length ps" using m "1.prems" by simp_all
      from mono[OF this] have "pos_end (ps ! nat k) \<le> pos_end (ps ! nat mid)" by simp
      with b "1.prems" show False by simp
    qed
    then show ?thesis using ih2[OF b mono'] "1.prems" m eq by simp
  next
    case c
    have "findEnd_loop ps t low high = mid"
      using True e c by (simp add: unf mid_def[symmetric])
    then show ?thesis using m c by simp
  qed
qed

text \<open>A target beyond every entry drives the end search to its clamp.\<close>

lemma findEnd_loop_beyond:
  "\<forall>i < length ps. pos_start (ps ! i) \<le> t \<and> pos_end (ps ! i) < t \<Longrightarrow>
     0 \<le> low \<Longrightarrow> low \<le> high + 1 \<Longrightarrow> high < int (length ps) \<Longrightarrow>
     findEnd_loop ps t low high = min (int (length ps) - 1) (high + 1)"
proof (induction ps t low high rule: findEnd_loop.induct)
  case (1 ps t low high)
  note unf = findEnd_loop.simps[of ps t low high]
  show ?case
  proof (cases "low \<le> high")
    case False
    from False have "findEnd_loop ps t low high = min (int (length ps) - 1) low"
      by (simp add: unf)
    moreover from False "1.prems" have "low = high + 1" by simp
    ultimately show ?thesis by simp
  next
    case True
    define mid where "mid = (low + high) div 2"
    have m: "low \<le> mid" "mid \<le> high" using True by (simp_all add: mid_def)
    have e: "entry_at ps mid = Some (ps ! nat mid)"
      using m "1.prems" by (simp add: entry_at_def)
    have lt: "nat mid < length ps" using m "1.prems" by simp
    have a: "\<not> pos_start (ps ! nat mid) > t" and b: "pos_end (ps ! nat mid) < t"
      using "1.prems"(1) lt by (simp_all add: not_less)
    have eq: "findEnd_loop ps t low high = findEnd_loop ps t (mid + 1) high"
      using True e a b by (simp add: unf mid_def[symmetric])
    show ?thesis
      using "1.IH"(2)[OF True mid_def e a b "1.prems"(1)] m "1.prems" eq by simp
  qed
qed

text \<open>An offset before every entry drives the start search down to \<open>low\<close>.\<close>

lemma findStart_loop_below:
  "\<forall>i < length ps. x < pos_start (ps ! i) \<and> x \<le> pos_end (ps ! i) \<Longrightarrow>
     0 \<le> low \<Longrightarrow> low \<le> high + 1 \<Longrightarrow> high < int (length ps) \<Longrightarrow>
     findStart_loop ps x low high = low"
proof (induction ps x low high rule: findStart_loop.induct)
  case (1 ps x low high)
  note unf = findStart_loop.simps[of ps x low high]
  show ?case
  proof (cases "low \<le> high")
    case False
    then have "findStart_loop ps x low high = max 0 low" by (simp add: unf)
    then show ?thesis using "1.prems" by simp
  next
    case True
    define mid where "mid = (low + high) div 2"
    have m: "low \<le> mid" "mid \<le> high" using True by (simp_all add: mid_def)
    have e: "entry_at ps mid = Some (ps ! nat mid)"
      using m "1.prems" by (simp add: entry_at_def)
    have lt: "nat mid < length ps" using m "1.prems" by simp
    have a: "\<not> pos_end (ps ! nat mid) < x" and b: "pos_start (ps ! nat mid) > x"
      using "1.prems"(1) lt by (simp_all add: not_less)
    have eq: "findStart_loop ps x low high = findStart_loop ps x low (mid - 1)"
      using True e a b by (simp add: unf mid_def[symmetric])
    show ?thesis
      using "1.IH"(2)[OF True mid_def e a b "1.prems"(1)] m "1.prems" eq by simp
  qed
qed

text \<open>The table built from non-negative heights is monotone and covers \<open>[0, total]\<close>.\<close>

lemma itemPositions_mono:
  assumes nonneg: "\<forall>i<n. 0 \<le> getItemHeight ih i"
  shows "\<forall>i j. i \<le> j \<longrightarrow> j < length (itemPositions n ih) \<longrightarrow>
           pos_start (itemPositions n ih ! i) \<le> pos_start (itemPositions n ih ! j) \<and>
           pos_end (itemPositions n ih ! i) \<le> pos_end (itemPositions n ih ! j)"
proof (intro allI impI)
  fix i j assume ij: "i \<le> j" and "j < length (itemPositions n ih)"
  then have jn: "j < n" by (simp add: length_itemPositions)
  have s: "prefix_sum ih i \<le> prefix_sum ih j"
    using ij jn by (intro prefix_sum_mono[OF nonneg]) simp_all
  have "prefix_sum ih (Suc i) \<le> prefix_sum ih (Suc j)"
    using ij jn by (intro prefix_sum_mono[OF nonneg]) simp_all
  then show "pos_start (itemPositions n ih ! i) \<le> pos_start (itemPositions n ih ! j) \<and>
           pos_end (itemPositions n ih ! i) \<le> pos_end (itemPositions n ih ! j)"
    using s ij jn by (simp add: nth_itemPositions)
qed

lemma itemPositions_cover:
  "\<forall>i<n. 0 \<le> getItemHeight ih i \<Longrightarrow> 0 < n \<Longrightarrow> 0 \<le> x \<Longrightarrow> x \<le> prefix_sum ih n \<Longrightarrow>
     \<exists>k<n. prefix_sum ih k \<le> x \<and> x \<le> prefix_sum ih (Suc k)"
proof (induction n)
  case 0
  then show ?case by simp
next
  case (Suc m)
  show ?case
  proof (cases "0 < m \<and> x \<le> prefix_sum ih m")
    case True
    with Suc obtain k where "k < m" "prefix_sum ih k \<le> x" "x \<le> prefix_sum ih (Suc k)" by auto
    then show ?thesis using less_Suc_eq by blast
  next
    case False
    then have "prefix_sum ih m \<le> x" using Suc.prems by (cases "m = 0") auto
    with Suc.prems(4) show ?thesis by blast
  qed
qed

subsection \<open>The window\<close>

lemma virtualItems_member:
  assumes "v \<in> set (virtualItems n ps H off ov)"
  shows "window_start ps off ov \<le> vi_index v \<and> vi_index v \<le> window_end n ps off H ov \<and>
         entry_at ps (vi_index v) =
           Some \<lparr>pos_start = vi_start v, pos_end = vi_end v, pos_size = vi_size v\<rparr>"
proof -
  define f where "f = (\<lambda>i. case entry_at ps i of None \<Rightarrow> []
             | Some pos \<Rightarrow> [\<lparr>vi_index = i, vi_start = pos_start pos,
                              vi_end = pos_end pos, vi_size = pos_size pos\<rparr>])"
  have "v \<in> set (concat (map f [window_start ps off ov..window_end n ps off H ov]))"
    using assms unfolding virtualItems_def Let_def f_def by (simp split: if_splits)
  then obtain i where i: "window_start ps off ov \<le> i" "i \<le> window_end n ps off H ov"
    and v: "v \<in> set (f i)" by auto
  show ?thesis
  proof (cases "entry_at ps i")
    case None
    with v show ?thesis by (simp add: f_def)
  next
    case (Some pos)
    with v i show ?thesis by (cases pos) (simp add: f_def)
  qed
qed

lemma findStartIndex_nonneg: "0 \<le> findStartIndex ps x"
  using findStart_loop_range[of 0 "int (length ps) - 1" ps x]
  by (simp add: findStartIndex_def)

lemma findEndIndex_range:
  "ps \<noteq> [] \<Longrightarrow> 0 \<le> findEndIndex ps x H \<and> findEndIndex ps x H \<le> int (length ps) - 1"
  using findEnd_loop_range[of 0 "int (length ps) - 1" ps "fadd x H"]
  by (simp add: findEndIndex_def)

lemma itemPositions_last_end:
  "0 < n \<Longrightarrow> pos_end (itemPositions n ih ! (n - 1)) = totalHeight n ih"
proof -
  assume "0 < n"
  then obtain m where n: "n = Suc m" by (cases n) auto
  show ?thesis unfolding n totalHeight_eq by (simp add: nth_itemPositions)
qed

lemma findStartIndex_in_bounds:
  assumes n: "0 < n" and nonneg: "\<forall>i<n. 0 \<le> getItemHeight ih i"
    and x: "0 \<le> x" "x \<le> totalHeight n ih"
  shows "0 \<le> findStartIndex (itemPositions n ih) x \<and>
         findStartIndex (itemPositions n ih) x \<le> int n - 1 \<and>
         pos_start (itemPositions n ih ! nat (findStartIndex (itemPositions n ih) x)) \<le> x \<and>
         x \<le> pos_end (itemPositions n ih ! nat (findStartIndex (itemPositions n ih) x))"
proof -
  let ?ps = "itemPositions n ih"
  from itemPositions_cover[OF nonneg n x(1) x(2)[unfolded totalHeight_eq]] obtain k where k: "k < n"
    "prefix_sum ih k \<le> x" "x \<le> prefix_sum ih (Suc k)"
    by blast
  have "0 \<le> findStart_loop ?ps x 0 (int (length ?ps) - 1) \<and>
        findStart_loop ?ps x 0 (int (length ?ps) - 1) \<le> int (length ?ps) - 1 \<and>
        pos_start (?ps ! nat (findStart_loop ?ps x 0 (int (length ?ps) - 1))) \<le> x \<and>
        x \<le> pos_end (?ps ! nat (findStart_loop ?ps x 0 (int (length ?ps) - 1)))"
    by (rule findStart_loop_found[OF itemPositions_mono[OF nonneg], where k = "int k"])
       (use k in \<open>simp_all add: length_itemPositions nth_itemPositions del: prefix_sum.simps\<close>)
  then show ?thesis by (simp add: findStartIndex_def length_itemPositions)
qed

lemma findStartIndex_below:
  assumes nonneg: "\<forall>i<n. 0 \<le> getItemHeight ih i" and x: "x < 0"
  shows "findStartIndex (itemPositions n ih) x = 0"
proof -
  let ?ps = "itemPositions n ih"
  have all: "\<forall>i < length ?ps. x < pos_start (?ps ! i) \<and> x \<le> pos_end (?ps ! i)"
  proof (intro allI impI)
    fix i assume "i < length ?ps"
    then have i: "i < n" by (simp add: length_itemPositions)
    have "prefix_sum ih 0 \<le> prefix_sum ih i" "prefix_sum ih 0 \<le> prefix_sum ih (Suc i)"
      using i by (intro prefix_sum_mono[OF nonneg]; simp)+
    then show "x < pos_start (?ps ! i) \<and> x \<le> pos_end (?ps ! i)"
      using x i by (simp add: nth_itemPositions del: prefix_sum.simps(2))
  qed
  have "findStart_loop ?ps x 0 (int (length ?ps) - 1) = 0"
    by (rule findStart_loop_below[OF all]) simp_all
  then show ?thesis by (simp add: findStartIndex_def)
qed

lemma findEndIndex_found:
  assumes n: "0 < n" and nonneg: "\<forall>i<n. 0 \<le> getItemHeight ih i"
    and t: "0 \<le> fadd x H" "fadd x H \<le> totalHeight n ih"
  shows "0 \<le> findEndIndex (itemPositions n ih) x H \<and>
         findEndIndex (itemPositions n ih) x H \<le> int n - 1 \<and>
         pos_start (itemPositions n ih ! nat (findEndIndex (itemPositions n ih) x H)) \<le> fadd x H \<and>
         fadd x H \<le> pos_end (itemPositions n ih ! nat (findEndIndex (itemPositions n ih) x H))"
proof -
  let ?ps = "itemPositions n ih"
  let ?t = "fadd x H"
  from itemPositions_cover[OF nonneg n t(1) t(2)[unfolded totalHeight_eq]] obtain k where k: "k < n"
    "prefix_sum ih k \<le> ?t" "?t \<le> prefix_sum ih (Suc k)"
    by blast
  have "0 \<le> findEnd_loop ?ps ?t 0 (int (length ?ps) - 1) \<and>
        findEnd_loop ?ps ?t 0 (int (length ?ps) - 1) \<le> int (length ?ps) - 1 \<and>
        pos_start (?ps ! nat (findEnd_loop ?ps ?t 0 (int (length ?ps) - 1))) \<le> ?t \<and>
        ?t \<le> pos_end (?ps ! nat (findEnd_loop ?ps ?t 0 (int (length ?ps) - 1)))"
    by (rule findEnd_loop_found[OF itemPositions_mono[OF nonneg], where k = "int k"])
       (use k in \<open>simp_all add: length_itemPositions nth_itemPositions del: prefix_sum.simps\<close>)
  then show ?thesis by (simp add: findEndIndex_def length_itemPositions)
qed

lemma findEndIndex_beyond:
  assumes n: "0 < n" and nonneg: "\<forall>i<n. 0 \<le> getItemHeight ih i"
    and t: "totalHeight n ih < fadd x H"
  shows "findEndIndex (itemPositions n ih) x H = int n - 1"
proof -
  let ?ps = "itemPositions n ih"
  let ?t = "fadd x H"
  have mono: "\<And>i j. i \<le> j \<Longrightarrow> j < n \<Longrightarrow>
      pos_start (?ps ! i) \<le> pos_start (?ps ! j) \<and> pos_end (?ps ! i) \<le> pos_end (?ps ! j)"
    using itemPositions_mono[OF nonneg] by (simp add: length_itemPositions)
  have last: "pos_end (?ps ! (n - 1)) = totalHeight n ih"
    using n by (rule itemPositions_last_end)
  have se: "\<And>i. i < n \<Longrightarrow> pos_start (?ps ! i) \<le> pos_end (?ps ! i)"
  proof -
    fix i assume i: "i < n"
    have "prefix_sum ih i \<le> prefix_sum ih (Suc i)"
      using i by (intro prefix_sum_mono[OF nonneg]) simp_all
    then show "pos_start (?ps ! i) \<le> pos_end (?ps ! i)"
      using i by (simp add: nth_itemPositions del: prefix_sum.simps(2))
  qed
  have all: "\<forall>i < length ?ps. pos_start (?ps ! i) \<le> ?t \<and> pos_end (?ps ! i) < ?t"
  proof (intro allI impI)
    fix i assume "i < length ?ps"
    then have i: "i < n" by (simp add: length_itemPositions)
    then have "pos_end (?ps ! i) \<le> pos_end (?ps ! (n - 1))" using mono[of i "n - 1"] n by simp
    then show "pos_start (?ps ! i) \<le> ?t \<and> pos_end (?ps ! i) < ?t"
      using se[OF i] last t by simp
  qed
  have "findEnd_loop ?ps ?t 0 (int (length ?ps) - 1) =
          min (int (length ?ps) - 1) (int (length ?ps) - 1 + 1)"
    by (rule findEnd_loop_beyond[OF all]) simp_all
  then show ?thesis by (simp add: findEndIndex_def length_itemPositions)
qed

lemma concat_map_singleton:
  "(\<And>x. x \<in> set xs \<Longrightarrow> f x = [g x]) \<Longrightarrow> concat (map f xs) = map g xs"
  by (induction xs) simp_all

lemma upto_as_upt: "[0..int n - 1] = map int [0..<n]"
proof (induction n)
  case 0
  show ?case by simp
next
  case (Suc n)
  have "[0..int (Suc n) - 1] = [0..int n - 1] @ [int n]"
    using upto_rec2[of 0 "int n"] by simp
  with Suc show ?case by simp
qed

lemma findStartIndex_top:
  assumes n: "0 < n" and nonneg: "\<forall>i<n. 0 \<le> getItemHeight ih i"
    and first: "0 < prefix_sum ih 1"
  shows "findStartIndex (itemPositions n ih) 0 = 0"
proof -
  let ?r = "findStartIndex (itemPositions n ih) 0"
  have tot: "0 \<le> totalHeight n ih"
    unfolding totalHeight_eq using prefix_sum_mono[OF nonneg, of 0 n] by simp
  from findStartIndex_in_bounds[OF n nonneg order_refl tot]
  have r: "0 \<le> ?r" "?r \<le> int n - 1" "pos_start (itemPositions n ih ! nat ?r) \<le> 0" by simp_all
  show ?thesis
  proof (rule ccontr)
    assume "?r \<noteq> 0"
    with r have "1 \<le> nat ?r" "nat ?r \<le> n" "nat ?r < n" by simp_all
    from prefix_sum_mono[OF nonneg this(1,2)] first have "0 < prefix_sum ih (nat ?r)" by simp
    then show False using r(3) \<open>nat ?r < n\<close> by (simp add: nth_itemPositions)
  qed
qed

lemma findEndIndex_bottom:
  assumes n: "0 < n" and nonneg: "\<forall>i<n. 0 \<le> getItemHeight ih i"
    and last: "prefix_sum ih (n - 1) < prefix_sum ih n"
  shows "findEndIndex (itemPositions n ih) 0 (totalHeight n ih) = int n - 1"
proof -
  let ?r = "findEndIndex (itemPositions n ih) 0 (totalHeight n ih)"
  have t: "fadd 0 (totalHeight n ih) = totalHeight n ih"
    unfolding totalHeight_eq by (rule fadd_zero_left[OF is_double_prefix_sum])
  have tot: "0 \<le> totalHeight n ih"
    unfolding totalHeight_eq using prefix_sum_mono[OF nonneg, of 0 n] by simp
  from findEndIndex_found[OF n nonneg, of 0 "totalHeight n ih"] tot
  have r: "0 \<le> ?r" "?r \<le> int n - 1"
    "totalHeight n ih \<le> pos_end (itemPositions n ih ! nat ?r)" by (simp_all add: t)
  show ?thesis
  proof (rule ccontr)
    assume "?r \<noteq> int n - 1"
    with r have lt: "Suc (nat ?r) \<le> n - 1" "n - 1 \<le> n" "nat ?r < n" by simp_all
    from prefix_sum_mono[OF nonneg lt(1,2)] last
    have "prefix_sum ih (Suc (nat ?r)) < totalHeight n ih" by (simp add: totalHeight_eq)
    then show False using r(3) lt(3) by (simp add: nth_itemPositions del: prefix_sum.simps(2))
  qed
qed

lemma full_window_items:
  assumes n: "0 < n" and nonneg: "\<forall>i<n. 0 \<le> getItemHeight ih i"
    and first: "0 < prefix_sum ih 1"
    and last: "prefix_sum ih (n - 1) < prefix_sum ih n"
  shows "useVirtualList_items n ih (totalHeight n ih) 0 0 =
     map (\<lambda>i. \<lparr>vi_index = int i,
                vi_start = pos_start (itemPositions n ih ! i),
                vi_end = pos_end (itemPositions n ih ! i),
                vi_size = pos_size (itemPositions n ih ! i)\<rparr>) [0..<n]"
proof -
  have "prefix_sum ih 1 \<le> prefix_sum ih n"
    using n by (intro prefix_sum_mono[OF nonneg]) simp_all
  with first have tot: "totalHeight n ih \<noteq> 0" by (simp add: totalHeight_eq del: prefix_sum.simps(2))
  have ws: "window_start (itemPositions n ih) 0 0 = 0"
    by (simp add: window_start_def findStartIndex_top[OF n nonneg first])
  have we: "window_end n (itemPositions n ih) 0 (totalHeight n ih) 0 = int n - 1"
    by (simp add: window_end_def findEndIndex_bottom[OF n nonneg last])
  have e: "\<And>i. i < n \<Longrightarrow> entry_at (itemPositions n ih) (int i) = Some (itemPositions n ih ! i)"
    by (simp add: entry_at_def length_itemPositions)
  have "concat (map (\<lambda>i. case entry_at (itemPositions n ih) i of None \<Rightarrow> []
             | Some pos \<Rightarrow> [\<lparr>vi_index = i, vi_start = pos_start pos,
                              vi_end = pos_end pos, vi_size = pos_size pos\<rparr>])
          (map int [0..<n])) =
        map (\<lambda>i. \<lparr>vi_index = int i,
                vi_start = pos_start (itemPositions n ih ! i),
                vi_end = pos_end (itemPositions n ih ! i),
                vi_size = pos_size (itemPositions n ih ! i)\<rparr>) [0..<n]"
    unfolding map_map
    by (rule concat_map_singleton) (simp add: e)
  then show ?thesis
    unfolding useVirtualList_items_def virtualItems_def Let_def ws we upto_as_upt
    using n tot by simp
qed

subsection \<open>The entries found by the searches overlap the viewport\<close>

lemma findStartIndex_overlap:
  assumes n: "0 < n" and nonneg: "\<forall>i<n. 0 \<le> getItemHeight ih i"
    and x: "x \<le> totalHeight n ih" and t: "0 \<le> t" "x \<le> t"
  shows "0 \<le> findStartIndex (itemPositions n ih) x \<and>
         findStartIndex (itemPositions n ih) x \<le> int n - 1 \<and>
         pos_start (itemPositions n ih ! nat (findStartIndex (itemPositions n ih) x)) \<le> t \<and>
         x \<le> pos_end (itemPositions n ih ! nat (findStartIndex (itemPositions n ih) x))"
proof (cases "x < 0")
  case True
  have s: "findStartIndex (itemPositions n ih) x = 0"
    using nonneg True by (rule findStartIndex_below)
  have "prefix_sum ih 0 \<le> prefix_sum ih (Suc 0)"
    using n by (intro prefix_sum_mono[OF nonneg]) simp_all
  then show ?thesis using n t True by (simp add: s nth_itemPositions)
next
  case False
  then have "0 \<le> x" by simp
  from findStartIndex_in_bounds[OF n nonneg this x] t show ?thesis by simp
qed

lemma findEndIndex_overlap:
  assumes n: "0 < n" and nonneg: "\<forall>i<n. 0 \<le> getItemHeight ih i"
    and x: "x \<le> totalHeight n ih" and t: "0 \<le> fadd x H" "x \<le> fadd x H"
  shows "0 \<le> findEndIndex (itemPositions n ih) x H \<and>
         findEndIndex (itemPositions n ih) x H \<le> int n - 1 \<and>
         pos_start (itemPositions n ih ! nat (findEndIndex (itemPositions n ih) x H)) \<le> fadd x H \<and>
         x \<le> pos_end (itemPositions n ih ! nat (findEndIndex (itemPositions n ih) x H))"
proof (cases "fadd x H \<le> totalHeight n ih")
  case True
  from findEndIndex_found[OF n nonneg t(1) True] t(2) show ?thesis by simp
next
  case False
  then have beyond: "totalHeight n ih < fadd x H" by simp
  have e: "findEndIndex (itemPositions n ih) x H = int n - 1"
    using n nonneg beyond by (rule findEndIndex_beyond)
  have last: "pos_end (itemPositions n ih ! (n - 1)) = totalHeight n ih"
    using n by (rule itemPositions_last_end)
  have "prefix_sum ih (n - 1) \<le> prefix_sum ih n"
    by (intro prefix_sum_mono[OF nonneg]) simp_all
  then have "pos_start (itemPositions n ih ! (n - 1)) \<le> totalHeight n ih"
    using n by (simp add: nth_itemPositions totalHeight_eq del: prefix_sum.simps(2))
  moreover have "nat (int n - 1) = n - 1" by simp
  ultimately show ?thesis using e last n x beyond by simp
qed

text \<open>The table of three items of height \<open>50\<close>.\<close>

lemma table_50_50_50:
  "itemPositions 3 (FixedHeight 50) =
     [\<lparr>pos_start = 0, pos_end = 50, pos_size = 50\<rparr>,
      \<lparr>pos_start = 50, pos_end = 100, pos_size = 50\<rparr>,
      \<lparr>pos_start = 100, pos_end = 150, pos_size = 50\<rparr>]"
  "totalHeight 3 (FixedHeight 50) = 150"
  by (simp_all add: itemPositions_eq totalHeight_eq number_ops upt_rec numeral_3_eq_3)

lemmas search_unfold = findStartIndex_def findEndIndex_def findStart_loop.simps
  findEnd_loop.simps entry_at_def Let_def

subsection \<open>Claims about the windowing engine\<close>

text \<open>
  Claim C2 says that for every table, offset and extent the two searches return indices
  in \<open>[0, lastIndex]\<close> whose entries overlap \<open>[offset, offset + extent]\<close>. With three items
  of height \<open>50\<close> (total extent \<open>150\<close>) and the offset \<open>200\<close>, \<open>findStartIndex\<close> returns
  \<open>3\<close>, one past the last index, where the table has no entry; \<open>findEndIndex\<close> returns
  \<open>2\<close>, whose entry \<open>[100, 150]\<close> lies before the viewport \<open>[200, 300]\<close>. With the offset
  \<open>-100\<close> and the extent \<open>50\<close> both searches return \<open>0\<close>, whose entry \<open>[0, 50]\<close> lies after
  the viewport \<open>[-100, -50]\<close>. In the empty table \<open>findEndIndex\<close> returns \<open>-1\<close>.
\<close>

theorem visible_range_counterexample:
  "\<not> (findStartIndex (itemPositions 3 (FixedHeight 50)) 200
        \<le> int (length (itemPositions 3 (FixedHeight 50))) - 1) \<and>
   entry_at (itemPositions 3 (FixedHeight 50))
     (findStartIndex (itemPositions 3 (FixedHeight 50)) 200) = None \<and>
   findEndIndex (itemPositions 3 (FixedHeight 50)) 200 100 = 2 \<and>
   \<not> (200 \<le> pos_end (itemPositions 3 (FixedHeight 50) ! 2)) \<and>
   findStartIndex (itemPositions 3 (FixedHeight 50)) (- 100) = 0 \<and>
   findEndIndex (itemPositions 3 (FixedHeight 50)) (- 100) 50 = 0 \<and>
   fadd (- 100) 50 = - 50 \<and>
   \<not> (pos_start (itemPositions 3 (FixedHeight 50) ! 0) \<le> fadd (- 100) 50) \<and>
   itemPositions 0 (FixedHeight 50) = [] \<and>
   findEndIndex (itemPositions 0 (FixedHeight 50)) 0 100 = - 1"
  by (simp add: table_50_50_50 search_unfold number_ops itemPositions_eq)


text \<open>
  Claim C2, amended. For a table of at least one item built from non-negative heights and
  a viewport that meets the range \<open>[0, total extent]\<close> of the table, both searches return
  an index in \<open>[0, lastIndex]\<close> whose entry overlaps \<open>[offset, offset + extent]\<close>. The
  viewport meets the table when the offset is at most the total extent and
  \<open>offset + extent\<close>, as the program computes it, is neither negative nor below the offset;
  for an offset that is a number of the program and a non-negative extent this is the case
  whenever the exact sum is not negative. For every offset up to the total extent, also a
  negative one, \<open>findStartIndex\<close> is at most \<open>lastIndex\<close>. For every offset, extent and
  overscan, every index of the computed window lies in
  \<open>[startIndex - overscan, endIndex + overscan]\<close> and in \<open>[0, lastIndex]\<close>; \<open>findStartIndex\<close>
  is never negative, and \<open>findEndIndex\<close> of a non-empty table lies in \<open>[0, lastIndex]\<close>.
\<close>

theorem visible_range_search:
  "(0 < n \<and> (\<forall>i<n. 0 \<le> getItemHeight ih i) \<and> off \<le> totalHeight n ih \<and>
    0 \<le> fadd off ext \<and> off \<le> fadd off ext \<longrightarrow>
      0 \<le> findStartIndex (itemPositions n ih) off \<and>
      findStartIndex (itemPositions n ih) off \<le> int n - 1 \<and>
      0 \<le> findEndIndex (itemPositions n ih) off ext \<and>
      findEndIndex (itemPositions n ih) off ext \<le> int n - 1 \<and>
      pos_start (itemPositions n ih ! nat (findStartIndex (itemPositions n ih) off)) \<le> fadd off ext \<and>
      off \<le> pos_end (itemPositions n ih ! nat (findStartIndex (itemPositions n ih) off)) \<and>
      pos_start (itemPositions n ih ! nat (findEndIndex (itemPositions n ih) off ext)) \<le> fadd off ext \<and>
      off \<le> pos_end (itemPositions n ih ! nat (findEndIndex (itemPositions n ih) off ext))) \<and>
   (is_double off \<and> 0 \<le> ext \<and> 0 \<le> off + ext \<longrightarrow> 0 \<le> fadd off ext \<and> off \<le> fadd off ext) \<and>
   (0 < n \<and> (\<forall>i<n. 0 \<le> getItemHeight ih i) \<and> off \<le> totalHeight n ih \<longrightarrow>
      findStartIndex (itemPositions n ih) off \<le> int n - 1) \<and>
   (\<forall>v \<in> set (useVirtualList_items n ih ext off overscan).
      findStartIndex (itemPositions n ih) off - overscan \<le> vi_index v \<and>
      vi_index v \<le> findEndIndex (itemPositions n ih) off ext + overscan \<and>
      0 \<le> vi_index v \<and> vi_index v \<le> int n - 1) \<and>
   0 \<le> findStartIndex (itemPositions n ih) off \<and>
   (0 < n \<longrightarrow> 0 \<le> findEndIndex (itemPositions n ih) off ext \<and>
            findEndIndex (itemPositions n ih) off ext \<le> int n - 1)"
proof -
  have window: "\<forall>v \<in> set (useVirtualList_items n ih ext off overscan).
      findStartIndex (itemPositions n ih) off - overscan \<le> vi_index v \<and>
      vi_index v \<le> findEndIndex (itemPositions n ih) off ext + overscan \<and>
      0 \<le> vi_index v \<and> vi_index v \<le> int n - 1"
  proof
    fix v assume "v \<in> set (useVirtualList_items n ih ext off overscan)"
    from virtualItems_member[OF this[unfolded useVirtualList_items_def]]
    have "window_start (itemPositions n ih) off overscan \<le> vi_index v"
      "vi_index v \<le> window_end n (itemPositions n ih) off ext overscan" by simp_all
    then show "findStartIndex (itemPositions n ih) off - overscan \<le> vi_index v \<and>
      vi_index v \<le> findEndIndex (itemPositions n ih) off ext + overscan \<and>
      0 \<le> vi_index v \<and> vi_index v \<le> int n - 1"
      by (simp add: window_start_def window_end_def)
  qed
  have clamp: "0 < n \<longrightarrow> 0 \<le> findEndIndex (itemPositions n ih) off ext \<and>
            findEndIndex (itemPositions n ih) off ext \<le> int n - 1"
  proof
    assume "0 < n"
    then have "itemPositions n ih \<noteq> []" using length_itemPositions[of n ih] by auto
    from findEndIndex_range[OF this]
    show "0 \<le> findEndIndex (itemPositions n ih) off ext \<and>
      findEndIndex (itemPositions n ih) off ext \<le> int n - 1"
      by (simp add: length_itemPositions)
  qed
  have viewport: "is_double off \<and> 0 \<le> ext \<and> 0 \<le> off + ext \<longrightarrow>
      0 \<le> fadd off ext \<and> off \<le> fadd off ext"
  proof
    assume a: "is_double off \<and> 0 \<le> ext \<and> 0 \<le> off + ext"
    then have "fl 0 \<le> fl (off + ext)" by (intro fl_mono) simp
    then have "0 \<le> fadd off ext" by (simp add: fadd_def fl_zero)
    moreover have "off \<le> fadd off ext" using a by (intro fadd_increasing) simp_all
    ultimately show "0 \<le> fadd off ext \<and> off \<le> fadd off ext" by simp
  qed
  have low: "0 < n \<and> (\<forall>i<n. 0 \<le> getItemHeight ih i) \<and> off \<le> totalHeight n ih \<longrightarrow>
      findStartIndex (itemPositions n ih) off \<le> int n - 1"
  proof
    assume a: "0 < n \<and> (\<forall>i<n. 0 \<le> getItemHeight ih i) \<and> off \<le> totalHeight n ih"
    then have n: "0 < n" and nonneg: "\<forall>i<n. 0 \<le> getItemHeight ih i"
      and off: "off \<le> totalHeight n ih" by simp_all
    have "0 \<le> max 0 off" "off \<le> max 0 off" by simp_all
    from findStartIndex_overlap[OF n nonneg off this]
    show "findStartIndex (itemPositions n ih) off \<le> int n - 1" by simp
  qed
  have inside: "0 < n \<and> (\<forall>i<n. 0 \<le> getItemHeight ih i) \<and> off \<le> totalHeight n ih \<and>
    0 \<le> fadd off ext \<and> off \<le> fadd off ext \<longrightarrow>
      0 \<le> findStartIndex (itemPositions n ih) off \<and>
      findStartIndex (itemPositions n ih) off \<le> int n - 1 \<and>
      0 \<le> findEndIndex (itemPositions n ih) off ext \<and>
      findEndIndex (itemPositions n ih) off ext \<le> int n - 1 \<and>
      pos_start (itemPositions n ih ! nat (findStartIndex (itemPositions n ih) off)) \<le> fadd off ext \<and>
      off \<le> pos_end (itemPositions n ih ! nat (findStartIndex (itemPositions n ih) off)) \<and>
      pos_start (itemPositions n ih ! nat (findEndIndex (itemPositions n ih) off ext)) \<le> fadd off ext \<and>
      off \<le> pos_end (itemPositions n ih ! nat (findEndIndex (itemPositions n ih) off ext))"
  proof
    assume a: "0 < n \<and> (\<forall>i<n. 0 \<le> getItemHeight ih i) \<and> off \<le> totalHeight n ih \<and>
      0 \<le> fadd off ext \<and> off \<le> fadd off ext"
    then have n: "0 < n" and nonneg: "\<forall>i<n. 0 \<le> getItemHeight ih i"
      and off: "off \<le> totalHeight n ih" and t: "0 \<le> fadd off ext" "off \<le> fadd off ext"
      by simp_all
    note s = findStartIndex_overlap[OF n nonneg off t]
    note e = findEndIndex_overlap[OF n nonneg off t]
    show "0 \<le> findStartIndex (itemPositions n ih) off \<and>
      findStartIndex (itemPositions n ih) off \<le> int n - 1 \<and>
      0 \<le> findEndIndex (itemPositions n ih) off ext \<and>
      findEndIndex (itemPositions n ih) off ext \<le> int n - 1 \<and>
      pos_start (itemPositions n ih ! nat (findStartIndex (itemPositions n ih) off)) \<le> fadd off ext \<and>
      off \<le> pos_end (itemPositions n ih ! nat (findStartIndex (itemPositions n ih) off)) \<and>
      pos_start (itemPositions n ih ! nat (findEndIndex (itemPositions n ih) off ext)) \<le> fadd off ext \<and>
      off \<le> pos_end (itemPositions n ih ! nat (findEndIndex (itemPositions n ih) off ext))"
      using s e by simp
  qed
  from inside viewport low window findStartIndex_nonneg[of "itemPositions n ih" off] clamp
  show ?thesis by (intro conjI)
qed

text \<open>
  Three items of height \<open>50\<close>: a viewport of extent \<open>60\<close> at the offset \<open>-20\<close>, with
  overscan \<open>1\<close>, and at the offset \<open>40\<close>.
\<close>

theorem visible_range_search_witness:
  "0 < (3::nat) \<and>
   0 \<le> getItemHeight (FixedHeight 50) 0 \<and> 0 \<le> getItemHeight (FixedHeight 50) 1 \<and>
   0 \<le> getItemHeight (FixedHeight 50) 2 \<and>
   - 20 \<le> totalHeight 3 (FixedHeight 50) \<and>
   is_double (- 20) \<and> 0 \<le> (60::real) \<and> 0 \<le> (- 20 + 60 :: real) \<and>
   fadd (- 20) 60 = 40 \<and> 0 \<le> fadd (- 20) 60 \<and> - 20 \<le> fadd (- 20) 60 \<and>
   findStartIndex (itemPositions 3 (FixedHeight 50)) (- 20) = 0 \<and>
   findEndIndex (itemPositions 3 (FixedHeight 50)) (- 20) 60 = 0 \<and>
   pos_start (itemPositions 3 (FixedHeight 50) ! nat (findStartIndex (itemPositions 3 (FixedHeight 50)) (- 20)))
     \<le> fadd (- 20) 60 \<and>
   - 20 \<le> pos_end (itemPositions 3 (FixedHeight 50) ! nat (findStartIndex (itemPositions 3 (FixedHeight 50)) (- 20))) \<and>
   pos_start (itemPositions 3 (FixedHeight 50) ! nat (findEndIndex (itemPositions 3 (FixedHeight 50)) (- 20) 60))
     \<le> fadd (- 20) 60 \<and>
   - 20 \<le> pos_end (itemPositions 3 (FixedHeight 50) ! nat (findEndIndex (itemPositions 3 (FixedHeight 50)) (- 20) 60)) \<and>
   map vi_index (useVirtualList_items 3 (FixedHeight 50) 60 (- 20) 1) = [0, 1] \<and>
   findStartIndex (itemPositions 3 (FixedHeight 50)) 40 = 0 \<and>
   findEndIndex (itemPositions 3 (FixedHeight 50)) 40 60 = 1 \<and>
   pos_start (itemPositions 3 (FixedHeight 50) ! nat (findEndIndex (itemPositions 3 (FixedHeight 50)) 40 60))
     \<le> fadd 40 60 \<and>
   40 \<le> pos_end (itemPositions 3 (FixedHeight 50) ! nat (findStartIndex (itemPositions 3 (FixedHeight 50)) 40)) \<and>
   map vi_index (useVirtualList_items 3 (FixedHeight 50) 60 40 0) = [0, 1]"
proof -
  have ev: "totalHeight 3 (FixedHeight 50) = 150"
    "is_double (- 20)" "fadd (- 20) 60 = 40" "fadd 40 60 = 100"
    "findStartIndex (itemPositions 3 (FixedHeight 50)) (- 20) = 0"
    "findEndIndex (itemPositions 3 (FixedHeight 50)) (- 20) 60 = 0"
    "findStartIndex (itemPositions 3 (FixedHeight 50)) 40 = 0"
    "findEndIndex (itemPositions 3 (FixedHeight 50)) 40 60 = 1"
    by (simp_all add: table_50_50_50 search_unfold number_ops is_double_def)
  have items: "map vi_index (useVirtualList_items 3 (FixedHeight 50) 60 (- 20) 1) = [0, 1]"
    "map vi_index (useVirtualList_items 3 (FixedHeight 50) 60 40 0) = [0, 1]"
    by (simp_all add: useVirtualList_items_def virtualItems_def window_start_def window_end_def ev)
       (simp_all add: table_50_50_50 entry_at_def upto_rec1)
  show ?thesis
    using visible_range_search[of 3 "FixedHeight 50" "- 20" 60 1]
      visible_range_search[of 3 "FixedHeight 50" 40 60 0] ev items
    by (simp add: less_Suc_eq numeral_3_eq_3)
qed


text \<open>The number \<open>72.3\<close> of the program, and sums of it.\<close>

lemma height_72_3: "fl (723 / 10) = 5087660204045107 / 2 ^ 46"
  by (simp add: number_rounding)

lemma sums_72_3:
  "prefix_sum (FixedHeight (5087660204045107 / 70368744177664)) 2 = 5087660204045107 / 2 ^ 45"
  "prefix_sum (FixedHeight (5087660204045107 / 70368744177664)) 3 = 1907872576516915 / 2 ^ 43"
  "prefix_sum (FixedHeight (5087660204045107 / 70368744177664)) 10 = 6359575255056383 / 2 ^ 43"
  by (simp_all add: eval_nat_numeral fadd_def number_rounding)

text \<open>
  Claim C6 says that entry \<open>i\<close> starts at the sum of the heights before it and ends at its
  start plus its own height, that its size is \<open>end - start\<close>, which is its height, and that
  the total extent is the end of the last entry. The program adds in binary64 arithmetic.
  With ten items of height \<open>72.3\<close> the entry of index \<open>2\<close> starts at \<open>144.6\<close> and ends at
  \<open>216.89999999999998\<close>: its size \<open>72.3\<close> is neither \<open>end - start\<close> as the program computes
  it (\<open>72.29999999999998\<close>) nor the exact difference. The start of entry \<open>3\<close> is not the
  exact sum of the three heights before it, and the total extent \<open>722.9999999999999\<close> is not
  the exact sum of the ten heights.
\<close>

theorem position_index_counterexample:
  "getItemHeight (FixedHeight (fl (723 / 10))) 2 = 5087660204045107 / 2 ^ 46 \<and>
   pos_start (itemPositions 10 (FixedHeight (fl (723 / 10))) ! 2) = 5087660204045107 / 2 ^ 45 \<and>
   pos_end (itemPositions 10 (FixedHeight (fl (723 / 10))) ! 2) = 1907872576516915 / 2 ^ 43 \<and>
   pos_size (itemPositions 10 (FixedHeight (fl (723 / 10))) ! 2) = 5087660204045107 / 2 ^ 46 \<and>
   fsub (pos_end (itemPositions 10 (FixedHeight (fl (723 / 10))) ! 2))
        (pos_start (itemPositions 10 (FixedHeight (fl (723 / 10))) ! 2)) = 2543830102022553 / 2 ^ 45 \<and>
   pos_size (itemPositions 10 (FixedHeight (fl (723 / 10))) ! 2) \<noteq>
     fsub (pos_end (itemPositions 10 (FixedHeight (fl (723 / 10))) ! 2))
          (pos_start (itemPositions 10 (FixedHeight (fl (723 / 10))) ! 2)) \<and>
   pos_size (itemPositions 10 (FixedHeight (fl (723 / 10))) ! 2) \<noteq>
     pos_end (itemPositions 10 (FixedHeight (fl (723 / 10))) ! 2)
       - pos_start (itemPositions 10 (FixedHeight (fl (723 / 10))) ! 2) \<and>
   pos_start (itemPositions 10 (FixedHeight (fl (723 / 10))) ! 3) \<noteq>
     (\<Sum>j<3. getItemHeight (FixedHeight (fl (723 / 10))) j) \<and>
   totalHeight 10 (FixedHeight (fl (723 / 10))) = 6359575255056383 / 2 ^ 43 \<and>
   totalHeight 10 (FixedHeight (fl (723 / 10))) \<noteq>
     (\<Sum>j<10. getItemHeight (FixedHeight (fl (723 / 10))) j)"
proof -
  have d: "fsub (1907872576516915 / 8796093022208) (5087660204045107 / 35184372088832)
             = 2543830102022553 / 2 ^ 45"
    by (simp add: fsub_def number_rounding)
  show ?thesis
    by (simp add: height_72_3 nth_itemPositions totalHeight_eq sums_72_3 d
             del: prefix_sum.simps)
qed

text \<open>
  Claim C6, amended. The Position Index is a left-to-right prefix-sum table in the
  arithmetic of the program: for every item count \<open>n\<close> and height function \<open>h\<close>, entry \<open>i\<close>
  starts at the sum of \<open>h(0)..h(i-1)\<close>, accumulated from left to right with the rounded
  addition of the program, it ends at the rounded sum of its start and \<open>h(i)\<close>, and its
  size is \<open>h(i)\<close>. For a non-negative height the size is non-negative and the entry does
  not end before its start; a zero height gives an entry of zero extent. The size equals
  \<open>end - start\<close> whenever \<open>start + h(i)\<close> is a number of the program. The total extent is
  the prefix sum of all heights, which is the end of the last entry, or \<open>0\<close> for an empty
  sequence. When the heights are whole numbers with a sum of at most \<open>2 ^ 53\<close>, the sums
  are exact: every entry starts at the exact sum of the heights before it, ends at its
  start plus its height, has the size \<open>end - start\<close>, and the total extent is the exact sum
  of all heights.
\<close>

theorem position_index_prefix_sums:
  "length (itemPositions n ih) = n \<and>
   (\<forall>i<n. pos_start (itemPositions n ih ! i) = prefix_sum ih i \<and>
          pos_end (itemPositions n ih ! i) =
            fadd (pos_start (itemPositions n ih ! i)) (getItemHeight ih i) \<and>
          pos_size (itemPositions n ih ! i) = getItemHeight ih i \<and>
          (0 \<le> getItemHeight ih i \<longrightarrow>
             0 \<le> pos_size (itemPositions n ih ! i) \<and>
             pos_start (itemPositions n ih ! i) \<le> pos_end (itemPositions n ih ! i)) \<and>
          (getItemHeight ih i = 0 \<longrightarrow>
             pos_end (itemPositions n ih ! i) = pos_start (itemPositions n ih ! i)) \<and>
          (is_double (pos_start (itemPositions n ih ! i) + getItemHeight ih i) \<longrightarrow>
             pos_size (itemPositions n ih ! i) =
               pos_end (itemPositions n ih ! i) - pos_start (itemPositions n ih ! i))) \<and>
   totalHeight n ih = prefix_sum ih n \<and>
   totalHeight n ih = (if n = 0 then 0 else pos_end (itemPositions n ih ! (n - 1))) \<and>
   ((\<forall>i<n. getItemHeight ih i = real (m i)) \<and> (\<Sum>i<n. m i) \<le> 2 ^ 53 \<longrightarrow>
      (\<forall>i<n. pos_start (itemPositions n ih ! i) = (\<Sum>j<i. getItemHeight ih j) \<and>
             pos_end (itemPositions n ih ! i) =
               pos_start (itemPositions n ih ! i) + getItemHeight ih i \<and>
             pos_size (itemPositions n ih ! i) =
               pos_end (itemPositions n ih ! i) - pos_start (itemPositions n ih ! i)) \<and>
      totalHeight n ih = (\<Sum>j<n. getItemHeight ih j))"
proof -
  have entries: "\<forall>i<n. pos_start (itemPositions n ih ! i) = prefix_sum ih i \<and>
          pos_end (itemPositions n ih ! i) =
            fadd (pos_start (itemPositions n ih ! i)) (getItemHeight ih i) \<and>
          pos_size (itemPositions n ih ! i) = getItemHeight ih i \<and>
          (0 \<le> getItemHeight ih i \<longrightarrow>
             0 \<le> pos_size (itemPositions n ih ! i) \<and>
             pos_start (itemPositions n ih ! i) \<le> pos_end (itemPositions n ih ! i)) \<and>
          (getItemHeight ih i = 0 \<longrightarrow>
             pos_end (itemPositions n ih ! i) = pos_start (itemPositions n ih ! i)) \<and>
          (is_double (pos_start (itemPositions n ih ! i) + getItemHeight ih i) \<longrightarrow>
             pos_size (itemPositions n ih ! i) =
               pos_end (itemPositions n ih ! i) - pos_start (itemPositions n ih ! i))"
  proof (intro allI impI)
    fix i assume i: "i < n"
    have inc: "0 \<le> getItemHeight ih i \<Longrightarrow>
        prefix_sum ih i \<le> fadd (prefix_sum ih i) (getItemHeight ih i)"
      by (intro fadd_increasing is_double_prefix_sum)
    have zero: "fadd (prefix_sum ih i) 0 = prefix_sum ih i"
      by (rule fadd_zero[OF is_double_prefix_sum])
    have exact: "is_double (prefix_sum ih i + getItemHeight ih i) \<Longrightarrow>
        fadd (prefix_sum ih i) (getItemHeight ih i) = prefix_sum ih i + getItemHeight ih i"
      by (simp add: fadd_def is_double_def)
    show "pos_start (itemPositions n ih ! i) = prefix_sum ih i \<and>
          pos_end (itemPositions n ih ! i) =
            fadd (pos_start (itemPositions n ih ! i)) (getItemHeight ih i) \<and>
          pos_size (itemPositions n ih ! i) = getItemHeight ih i \<and>
          (0 \<le> getItemHeight ih i \<longrightarrow>
             0 \<le> pos_size (itemPositions n ih ! i) \<and>
             pos_start (itemPositions n ih ! i) \<le> pos_end (itemPositions n ih ! i)) \<and>
          (getItemHeight ih i = 0 \<longrightarrow>
             pos_end (itemPositions n ih ! i) = pos_start (itemPositions n ih ! i)) \<and>
          (is_double (pos_start (itemPositions n ih ! i) + getItemHeight ih i) \<longrightarrow>
             pos_size (itemPositions n ih ! i) =
               pos_end (itemPositions n ih ! i) - pos_start (itemPositions n ih ! i))"
      using i inc zero exact by (simp add: nth_itemPositions)
  qed
  have total: "totalHeight n ih = (if n = 0 then 0 else pos_end (itemPositions n ih ! (n - 1)))"
    using itemPositions_last_end[of n ih] by (simp add: totalHeight_eq)
  have whole: "(\<forall>i<n. getItemHeight ih i = real (m i)) \<and> (\<Sum>i<n. m i) \<le> 2 ^ 53 \<longrightarrow>
      (\<forall>i<n. pos_start (itemPositions n ih ! i) = (\<Sum>j<i. getItemHeight ih j) \<and>
             pos_end (itemPositions n ih ! i) =
               pos_start (itemPositions n ih ! i) + getItemHeight ih i \<and>
             pos_size (itemPositions n ih ! i) =
               pos_end (itemPositions n ih ! i) - pos_start (itemPositions n ih ! i)) \<and>
      totalHeight n ih = (\<Sum>j<n. getItemHeight ih j)"
  proof (intro impI)
    assume a: "(\<forall>i<n. getItemHeight ih i = real (m i)) \<and> (\<Sum>i<n. m i) \<le> 2 ^ 53"
    then have h: "\<forall>i<n. getItemHeight ih i = real (m i)" and le: "(\<Sum>i<n. m i) \<le> 2 ^ 53"
      by simp_all
    have ps: "prefix_sum ih k = (\<Sum>j<k. getItemHeight ih j)" if k: "k \<le> n" for k
    proof -
      have "(\<Sum>i<k. m i) \<le> (\<Sum>i<n. m i)" using k by (intro sum_mono2) auto
      with le have "(\<Sum>i<k. m i) \<le> 2 ^ 53" by simp
      moreover have "\<forall>i<k. getItemHeight ih i = real (m i)" using h k by simp
      ultimately have "prefix_sum ih k = real (\<Sum>i<k. m i)" by (rule prefix_sum_exact[rotated])
      also have "\<dots> = (\<Sum>j<k. getItemHeight ih j)" using h k by simp
      finally show ?thesis .
    qed
    have "\<forall>i<n. pos_start (itemPositions n ih ! i) = (\<Sum>j<i. getItemHeight ih j) \<and>
             pos_end (itemPositions n ih ! i) =
               pos_start (itemPositions n ih ! i) + getItemHeight ih i \<and>
             pos_size (itemPositions n ih ! i) =
               pos_end (itemPositions n ih ! i) - pos_start (itemPositions n ih ! i)"
    proof (intro allI impI)
      fix i assume i: "i < n"
      have "prefix_sum ih i = (\<Sum>j<i. getItemHeight ih j)"
        "prefix_sum ih (Suc i) = (\<Sum>j<Suc i. getItemHeight ih j)"
        using i by (simp_all add: ps del: prefix_sum.simps(2))
      then show "pos_start (itemPositions n ih ! i) = (\<Sum>j<i. getItemHeight ih j) \<and>
             pos_end (itemPositions n ih ! i) =
               pos_start (itemPositions n ih ! i) + getItemHeight ih i \<and>
             pos_size (itemPositions n ih ! i) =
               pos_end (itemPositions n ih ! i) - pos_start (itemPositions n ih ! i)"
        using i by (simp add: nth_itemPositions del: prefix_sum.simps(2))
    qed
    moreover have "totalHeight n ih = (\<Sum>j<n. getItemHeight ih j)"
      by (simp add: totalHeight_eq ps)
    ultimately show "(\<forall>i<n. pos_start (itemPositions n ih ! i) = (\<Sum>j<i. getItemHeight ih j) \<and>
             pos_end (itemPositions n ih ! i) =
               pos_start (itemPositions n ih ! i) + getItemHeight ih i \<and>
             pos_size (itemPositions n ih ! i) =
               pos_end (itemPositions n ih ! i) - pos_start (itemPositions n ih ! i)) \<and>
      totalHeight n ih = (\<Sum>j<n. getItemHeight ih j)" by simp
  qed
  from length_itemPositions[of n ih] entries totalHeight_eq[of n ih] total whole
  show ?thesis by (intro conjI)
qed


text \<open>The table of the heights \<open>50, 0, 30\<close>, and the empty table.\<close>

theorem position_index_prefix_sums_witness:
  "length (itemPositions 3 (heights_of_list [50, 0, 30])) = 3 \<and>
   pos_start (itemPositions 3 (heights_of_list [50, 0, 30]) ! 2) = 50 \<and>
   pos_end (itemPositions 3 (heights_of_list [50, 0, 30]) ! 2) = 80 \<and>
   pos_size (itemPositions 3 (heights_of_list [50, 0, 30]) ! 2) = 30 \<and>
   0 \<le> getItemHeight (heights_of_list [50, 0, 30]) 2 \<and>
   is_double (pos_start (itemPositions 3 (heights_of_list [50, 0, 30]) ! 2)
              + getItemHeight (heights_of_list [50, 0, 30]) 2) \<and>
   pos_size (itemPositions 3 (heights_of_list [50, 0, 30]) ! 2) =
     pos_end (itemPositions 3 (heights_of_list [50, 0, 30]) ! 2)
       - pos_start (itemPositions 3 (heights_of_list [50, 0, 30]) ! 2) \<and>
   getItemHeight (heights_of_list [50, 0, 30]) 1 = 0 \<and>
   pos_start (itemPositions 3 (heights_of_list [50, 0, 30]) ! 1) = 50 \<and>
   pos_end (itemPositions 3 (heights_of_list [50, 0, 30]) ! 1) = 50 \<and>
   getItemHeight (heights_of_list [50, 0, 30]) 0 = real ([50, 0, 30] ! 0) \<and>
   getItemHeight (heights_of_list [50, 0, 30]) 1 = real ([50, 0, 30] ! 1) \<and>
   getItemHeight (heights_of_list [50, 0, 30]) 2 = real ([50, 0, 30] ! 2) \<and>
   (\<Sum>i<3. [50, 0, 30] ! i) \<le> (2 ^ 53 :: nat) \<and>
   totalHeight 3 (heights_of_list [50, 0, 30])
     = (\<Sum>j<3. getItemHeight (heights_of_list [50, 0, 30]) j) \<and>
   totalHeight 3 (heights_of_list [50, 0, 30]) = 80 \<and>
   totalHeight 0 (heights_of_list [50, 0, 30]) = 0"
proof -
  let ?ih = "heights_of_list [50, 0, 30]"
  note t = position_index_prefix_sums[of 3 ?ih "(!) [50, 0, 30]"]
  note t0 = position_index_prefix_sums[of 0 ?ih "(!) [50, 0, 30]"]
  have h: "getItemHeight ?ih 0 = 50" "getItemHeight ?ih 1 = 0" "getItemHeight ?ih 2 = 30"
    by (simp_all add: heights_of_list_def)
  have hm: "getItemHeight ?ih 0 = real ([50, 0, 30] ! 0)"
    "getItemHeight ?ih 1 = real ([50, 0, 30] ! 1)" "getItemHeight ?ih 2 = real ([50, 0, 30] ! 2)"
    by (simp_all add: heights_of_list_def)
  have hs: "\<forall>i<3. getItemHeight ?ih i = real ([50, 0, 30] ! i)"
    by (simp add: heights_of_list_def less_Suc_eq numeral_3_eq_3)
  have sm: "(\<Sum>i<3. [50, 0, 30] ! i) \<le> (2 ^ 53 :: nat)"
    by (simp add: lessThan_Suc numeral_3_eq_3)
  have sums: "prefix_sum ?ih 1 = 50" "prefix_sum ?ih 2 = 50" "prefix_sum ?ih 3 = 80"
    by (simp_all add: eval_nat_numeral heights_of_list_def number_ops)
  have len: "length (itemPositions 3 ?ih) = 3" using t by (rule conjunct1)
  have ent: "\<forall>i<3. pos_start (itemPositions 3 ?ih ! i) = prefix_sum ?ih i \<and>
          pos_end (itemPositions 3 ?ih ! i) =
            fadd (pos_start (itemPositions 3 ?ih ! i)) (getItemHeight ?ih i) \<and>
          pos_size (itemPositions 3 ?ih ! i) = getItemHeight ?ih i \<and>
          (0 \<le> getItemHeight ?ih i \<longrightarrow>
             0 \<le> pos_size (itemPositions 3 ?ih ! i) \<and>
             pos_start (itemPositions 3 ?ih ! i) \<le> pos_end (itemPositions 3 ?ih ! i)) \<and>
          (getItemHeight ?ih i = 0 \<longrightarrow>
             pos_end (itemPositions 3 ?ih ! i) = pos_start (itemPositions 3 ?ih ! i)) \<and>
          (is_double (pos_start (itemPositions 3 ?ih ! i) + getItemHeight ?ih i) \<longrightarrow>
             pos_size (itemPositions 3 ?ih ! i) =
               pos_end (itemPositions 3 ?ih ! i) - pos_start (itemPositions 3 ?ih ! i))"
    using t by blast
  have lt: "(2::nat) < 3" "(1::nat) < 3" by simp_all
  note ent2 = ent[rule_format, OF lt(1)] and ent1 = ent[rule_format, OF lt(2)]
  have s2: "pos_start (itemPositions 3 ?ih ! 2) = 50" using ent2 sums by simp
  have e2: "pos_end (itemPositions 3 ?ih ! 2) = 80"
    using ent2 s2 h by (simp add: number_ops)
  have z2: "pos_size (itemPositions 3 ?ih ! 2) = 30" using ent2 h by simp
  have n2: "0 \<le> getItemHeight ?ih 2" using h by simp
  have d2: "is_double (pos_start (itemPositions 3 ?ih ! 2) + getItemHeight ?ih 2)"
    by (simp add: s2 h is_double_def number_ops)
  have x2: "pos_size (itemPositions 3 ?ih ! 2) =
     pos_end (itemPositions 3 ?ih ! 2) - pos_start (itemPositions 3 ?ih ! 2)"
    using ent2 d2 by blast
  have s1: "pos_start (itemPositions 3 ?ih ! 1) = 50" using ent1 sums by simp
  have "pos_end (itemPositions 3 ?ih ! 1) = pos_start (itemPositions 3 ?ih ! 1)"
    using ent1 h(2) by blast
  then have e1: "pos_end (itemPositions 3 ?ih ! 1) = 50" using s1 by simp
  have whole: "totalHeight 3 ?ih = (\<Sum>j<3. getItemHeight ?ih j)"
    using t hs sm by blast
  have tot: "totalHeight 3 ?ih = 80" using t sums by simp
  have tot0: "totalHeight 0 ?ih = 0" using t0 by simp
  from len s2 e2 z2 n2 d2 x2 h(2) s1 e1 hm sm whole tot tot0
  show ?thesis by (intro conjI)
qed

lemmas window_unfold = useVirtualList_items_def virtualItems_def window_start_def
  window_end_def search_unfold itemPositions_eq totalHeight_eq heights_of_list_def
  upt_rec upto_rec1 eval_nat_numeral

text \<open>
  Claim C7 says that for every non-empty item sequence the window at offset \<open>0\<close> with
  overscan \<open>0\<close> and a non-zero viewport extent equal to the total extent is the full range
  \<open>[0, itemCount - 1]\<close>. With the heights \<open>0, 0, 10\<close> the window is \<open>[1, 2]\<close>: the search
  stops at the first probed entry that contains the offset, here entry \<open>1\<close>. With the
  heights \<open>10, 0, 0\<close> the window is \<open>[0, 1]\<close>. With the heights \<open>2 ^ 53, 1, 1\<close>, all
  positive, the additions of \<open>1\<close> are lost to rounding, the last entry has no extent, and
  the window is \<open>[0, 1]\<close>.
\<close>

theorem full_viewport_counterexample:
  "totalHeight 3 (heights_of_list [0, 0, 10]) = 10 \<and>
   map vi_index (useVirtualList_items 3 (heights_of_list [0, 0, 10])
                   (totalHeight 3 (heights_of_list [0, 0, 10])) 0 0) = [1, 2] \<and>
   map vi_index (useVirtualList_items 3 (heights_of_list [10, 0, 0])
                   (totalHeight 3 (heights_of_list [10, 0, 0])) 0 0) = [0, 1] \<and>
   totalHeight 3 (heights_of_list [2 ^ 53, 1, 1]) = 2 ^ 53 \<and>
   pos_start (itemPositions 3 (heights_of_list [2 ^ 53, 1, 1]) ! 2) = 2 ^ 53 \<and>
   pos_end (itemPositions 3 (heights_of_list [2 ^ 53, 1, 1]) ! 2) = 2 ^ 53 \<and>
   map vi_index (useVirtualList_items 3 (heights_of_list [2 ^ 53, 1, 1])
                   (totalHeight 3 (heights_of_list [2 ^ 53, 1, 1])) 0 0) = [0, 1]"
proof -
  have a: "fl 9007199254740993 = 9007199254740992"
    by (simp add: number_rounding)
  show ?thesis
    by (simp add: window_unfold a number_ops)
qed

text \<open>
  Claim C7, amended. For every non-empty item sequence with non-negative heights in which
  the first and the last entry of the Position Index have a positive extent
  (\<open>start < end\<close>), the window at offset \<open>0\<close> with overscan \<open>0\<close> and a viewport extent equal
  to the total extent (which is then non-zero) is exactly the full index range
  \<open>[0, itemCount - 1]\<close>, each item carrying its entry of the table; heights of zero between
  the first and the last item are permitted. The first entry has a positive extent when
  the first height is a positive number of the program; the last entry has one when the
  heights are whole numbers with a sum of at most \<open>2 ^ 53\<close> and the last height is positive.
\<close>

theorem full_viewport_window:
  "(0 < n \<and> (\<forall>i<n. 0 \<le> getItemHeight ih i) \<and>
    pos_start (itemPositions n ih ! 0) < pos_end (itemPositions n ih ! 0) \<and>
    pos_start (itemPositions n ih ! (n - 1)) < pos_end (itemPositions n ih ! (n - 1)) \<longrightarrow>
     totalHeight n ih \<noteq> 0 \<and>
     map vi_index (useVirtualList_items n ih (totalHeight n ih) 0 0) = map int [0..<n] \<and>
     useVirtualList_items n ih (totalHeight n ih) 0 0 =
       map (\<lambda>i. \<lparr>vi_index = int i,
                  vi_start = pos_start (itemPositions n ih ! i),
                  vi_end = pos_end (itemPositions n ih ! i),
                  vi_size = pos_size (itemPositions n ih ! i)\<rparr>) [0..<n]) \<and>
   (0 < n \<and> is_double (getItemHeight ih 0) \<and> 0 < getItemHeight ih 0 \<longrightarrow>
      pos_start (itemPositions n ih ! 0) < pos_end (itemPositions n ih ! 0)) \<and>
   (0 < n \<and> (\<forall>i<n. getItemHeight ih i = real (m i)) \<and> (\<Sum>i<n. m i) \<le> 2 ^ 53 \<and>
    0 < m (n - 1) \<longrightarrow>
      pos_start (itemPositions n ih ! (n - 1)) < pos_end (itemPositions n ih ! (n - 1)))"
proof -
  have full: "0 < n \<and> (\<forall>i<n. 0 \<le> getItemHeight ih i) \<and>
    pos_start (itemPositions n ih ! 0) < pos_end (itemPositions n ih ! 0) \<and>
    pos_start (itemPositions n ih ! (n - 1)) < pos_end (itemPositions n ih ! (n - 1)) \<longrightarrow>
     totalHeight n ih \<noteq> 0 \<and>
     map vi_index (useVirtualList_items n ih (totalHeight n ih) 0 0) = map int [0..<n] \<and>
     useVirtualList_items n ih (totalHeight n ih) 0 0 =
       map (\<lambda>i. \<lparr>vi_index = int i,
                  vi_start = pos_start (itemPositions n ih ! i),
                  vi_end = pos_end (itemPositions n ih ! i),
                  vi_size = pos_size (itemPositions n ih ! i)\<rparr>) [0..<n]"
  proof
    assume a: "0 < n \<and> (\<forall>i<n. 0 \<le> getItemHeight ih i) \<and>
      pos_start (itemPositions n ih ! 0) < pos_end (itemPositions n ih ! 0) \<and>
      pos_start (itemPositions n ih ! (n - 1)) < pos_end (itemPositions n ih ! (n - 1))"
    then have n: "0 < n" and nonneg: "\<forall>i<n. 0 \<le> getItemHeight ih i" by simp_all
    from a n have first: "0 < prefix_sum ih 1"
      by (simp add: nth_itemPositions)
    obtain k where k: "n = Suc k" using n by (cases n) auto
    from a have last: "prefix_sum ih (n - 1) < prefix_sum ih n"
      unfolding k by (simp add: nth_itemPositions)
    have "prefix_sum ih 1 \<le> prefix_sum ih n"
      using n by (intro prefix_sum_mono[OF nonneg]) simp_all
    with first have tot: "totalHeight n ih \<noteq> 0"
      by (simp add: totalHeight_eq del: prefix_sum.simps(2))
    note items = full_window_items[OF n nonneg first last]
    have idx: "map vi_index (useVirtualList_items n ih (totalHeight n ih) 0 0) = map int [0..<n]"
      by (simp add: items comp_def)
    from tot idx items show "totalHeight n ih \<noteq> 0 \<and>
     map vi_index (useVirtualList_items n ih (totalHeight n ih) 0 0) = map int [0..<n] \<and>
     useVirtualList_items n ih (totalHeight n ih) 0 0 =
       map (\<lambda>i. \<lparr>vi_index = int i,
                  vi_start = pos_start (itemPositions n ih ! i),
                  vi_end = pos_end (itemPositions n ih ! i),
                  vi_size = pos_size (itemPositions n ih ! i)\<rparr>) [0..<n]" by simp
  qed
  have first: "0 < n \<and> is_double (getItemHeight ih 0) \<and> 0 < getItemHeight ih 0 \<longrightarrow>
      pos_start (itemPositions n ih ! 0) < pos_end (itemPositions n ih ! 0)"
    by (simp add: nth_itemPositions fadd_zero_left)
  have last: "0 < n \<and> (\<forall>i<n. getItemHeight ih i = real (m i)) \<and> (\<Sum>i<n. m i) \<le> 2 ^ 53 \<and>
    0 < m (n - 1) \<longrightarrow>
      pos_start (itemPositions n ih ! (n - 1)) < pos_end (itemPositions n ih ! (n - 1))"
  proof
    assume a: "0 < n \<and> (\<forall>i<n. getItemHeight ih i = real (m i)) \<and> (\<Sum>i<n. m i) \<le> 2 ^ 53 \<and>
      0 < m (n - 1)"
    then obtain k where k: "n = Suc k" by (cases n) auto
    from a have h: "\<forall>i<Suc k. getItemHeight ih i = real (m i)"
      and le: "(\<Sum>i<Suc k. m i) \<le> 2 ^ 53" and mk: "0 < m k" by (simp_all add: k)
    from le have le': "(\<Sum>i<k. m i) \<le> 2 ^ 53" by simp
    have "prefix_sum ih k = real (\<Sum>i<k. m i)"
      using h le' by (intro prefix_sum_exact) simp_all
    moreover have "prefix_sum ih (Suc k) = real (\<Sum>i<Suc k. m i)"
      using h le by (intro prefix_sum_exact) simp_all
    ultimately have "prefix_sum ih k < prefix_sum ih (Suc k)" using mk by simp
    then show "pos_start (itemPositions n ih ! (n - 1)) < pos_end (itemPositions n ih ! (n - 1))"
      unfolding k by (simp add: nth_itemPositions del: prefix_sum.simps(2))
  qed
  from full first last show ?thesis by (intro conjI)
qed

text \<open>The heights \<open>20, 0, 30\<close>.\<close>

theorem full_viewport_window_witness:
  "0 < (3::nat) \<and>
   0 \<le> getItemHeight (heights_of_list [20, 0, 30]) 0 \<and>
   0 \<le> getItemHeight (heights_of_list [20, 0, 30]) 1 \<and>
   0 \<le> getItemHeight (heights_of_list [20, 0, 30]) 2 \<and>
   is_double (getItemHeight (heights_of_list [20, 0, 30]) 0) \<and>
   0 < getItemHeight (heights_of_list [20, 0, 30]) 0 \<and>
   getItemHeight (heights_of_list [20, 0, 30]) 0 = real ([20, 0, 30] ! 0) \<and>
   getItemHeight (heights_of_list [20, 0, 30]) 1 = real ([20, 0, 30] ! 1) \<and>
   getItemHeight (heights_of_list [20, 0, 30]) 2 = real ([20, 0, 30] ! 2) \<and>
   (\<Sum>i<3. [20, 0, 30] ! i) \<le> (2 ^ 53 :: nat) \<and>
   (0::nat) < [20, 0, 30] ! (3 - 1) \<and>
   pos_start (itemPositions 3 (heights_of_list [20, 0, 30]) ! 0)
     < pos_end (itemPositions 3 (heights_of_list [20, 0, 30]) ! 0) \<and>
   pos_start (itemPositions 3 (heights_of_list [20, 0, 30]) ! (3 - 1))
     < pos_end (itemPositions 3 (heights_of_list [20, 0, 30]) ! (3 - 1)) \<and>
   totalHeight 3 (heights_of_list [20, 0, 30]) = 50 \<and>
   map vi_index (useVirtualList_items 3 (heights_of_list [20, 0, 30])
                   (totalHeight 3 (heights_of_list [20, 0, 30])) 0 0) = [0, 1, 2]"
proof -
  let ?ih = "heights_of_list [20, 0, 30]"
  note t = full_viewport_window[of 3 ?ih "(!) [20, 0, 30]"]
  have n: "0 < (3::nat)" by simp
  have h: "0 \<le> getItemHeight ?ih 0" "0 \<le> getItemHeight ?ih 1" "0 \<le> getItemHeight ?ih 2"
    by (simp_all add: heights_of_list_def)
  have nonneg: "\<forall>i<3. 0 \<le> getItemHeight ?ih i"
    by (simp add: heights_of_list_def less_Suc_eq numeral_3_eq_3)
  have d0: "is_double (getItemHeight ?ih 0)"
    by (simp add: heights_of_list_def is_double_def number_ops)
  have p0: "0 < getItemHeight ?ih 0" by (simp add: heights_of_list_def)
  have hm: "getItemHeight ?ih 0 = real ([20, 0, 30] ! 0)"
    "getItemHeight ?ih 1 = real ([20, 0, 30] ! 1)" "getItemHeight ?ih 2 = real ([20, 0, 30] ! 2)"
    by (simp_all add: heights_of_list_def)
  have hs: "\<forall>i<3. getItemHeight ?ih i = real ([20, 0, 30] ! i)"
    by (simp add: heights_of_list_def less_Suc_eq numeral_3_eq_3)
  have sm: "(\<Sum>i<3. [20, 0, 30] ! i) \<le> (2 ^ 53 :: nat)"
    by (simp add: lessThan_Suc numeral_3_eq_3)
  have pl: "(0::nat) < [20, 0, 30] ! (3 - 1)" by simp
  have first: "pos_start (itemPositions 3 ?ih ! 0) < pos_end (itemPositions 3 ?ih ! 0)"
    using t n d0 p0 by blast
  have last: "pos_start (itemPositions 3 ?ih ! (3 - 1)) < pos_end (itemPositions 3 ?ih ! (3 - 1))"
    using t n hs sm pl by blast
  have tot: "totalHeight 3 ?ih = 50"
    by (simp add: totalHeight_eq heights_of_list_def eval_nat_numeral number_ops)
  have "map vi_index (useVirtualList_items 3 ?ih (totalHeight 3 ?ih) 0 0) = map int [0..<3]"
    using t n nonneg first last by blast
  then have idx: "map vi_index (useVirtualList_items 3 ?ih (totalHeight 3 ?ih) 0 0) = [0, 1, 2]"
    by (simp add: numeral_3_eq_3 upt_rec)
  from n h d0 p0 hm sm pl first last tot idx
  show ?thesis by (intro conjI)
qed

text \<open>
  Claim C8. \<open>scrollToIndex(index, align)\<close> does nothing for \<open>index < 0\<close> or
  \<open>index \<ge> itemCount\<close> (and nothing while the container is not mounted). Otherwise, in
  local addressing mode, its effect is the assignment of a target offset that is a function
  of the index, the alignment, the position table and the viewport extent alone:
  \<open>entry.start\<close> for \<open>start\<close>, \<open>entry.start - viewportExtent / 2 + entry.size / 2\<close> for
  \<open>center\<close>, \<open>entry.end - viewportExtent\<close> for \<open>end\<close>, each evaluated from left to right in
  the arithmetic of the program and clamped to \<open>\<ge> 0\<close>; the entry is the prefix-sum entry
  of the index.
\<close>

theorem scrollToIndex_local_target:
  "(index < 0 \<or> int n \<le> index \<longrightarrow>
      scrollToIndex mounted containerTop useWindowScroll n (itemPositions n ih) H index algn = None) \<and>
   scrollToIndex False containerTop useWindowScroll n (itemPositions n ih) H index algn = None \<and>
   (0 \<le> index \<and> index < int n \<longrightarrow>
      scrollToIndex True containerTop False n (itemPositions n ih) H index algn =
        Some (SetScrollTop (max 0
          (case algn of
             AlignStart \<Rightarrow> pos_start (itemPositions n ih ! nat index)
           | AlignCenter \<Rightarrow>
               fadd (fsub (pos_start (itemPositions n ih ! nat index)) (fdiv H 2))
                    (fdiv (pos_size (itemPositions n ih ! nat index)) 2)
           | AlignEnd \<Rightarrow> fsub (pos_end (itemPositions n ih ! nat index)) H))) \<and>
      pos_start (itemPositions n ih ! nat index) = prefix_sum ih (nat index) \<and>
      pos_size (itemPositions n ih ! nat index) = getItemHeight ih (nat index) \<and>
      pos_end (itemPositions n ih ! nat index) =
        fadd (prefix_sum ih (nat index)) (getItemHeight ih (nat index)))"
  by (auto simp: scrollToIndex_def entry_at_def length_itemPositions nth_itemPositions Let_def
           split: align.splits)

text \<open>Three items of height \<open>50\<close> in a viewport of extent \<open>60\<close>.\<close>

theorem scrollToIndex_local_target_witness:
  "scrollToIndex True 0 False 3 (itemPositions 3 (FixedHeight 50)) 60 (-1) AlignStart = None \<and>
   scrollToIndex True 0 False 3 (itemPositions 3 (FixedHeight 50)) 60 3 AlignStart = None \<and>
   (0::int) \<le> 2 \<and> (2::int) < int 3 \<and>
   scrollToIndex True 0 False 3 (itemPositions 3 (FixedHeight 50)) 60 2 AlignStart
     = Some (SetScrollTop 100) \<and>
   scrollToIndex True 0 False 3 (itemPositions 3 (FixedHeight 50)) 60 2 AlignCenter
     = Some (SetScrollTop 95) \<and>
   scrollToIndex True 0 False 3 (itemPositions 3 (FixedHeight 50)) 60 2 AlignEnd
     = Some (SetScrollTop 90) \<and>
   scrollToIndex True 0 False 3 (itemPositions 3 (FixedHeight 50)) 60 0 AlignEnd
     = Some (SetScrollTop 0)"
  using scrollToIndex_local_target[of "-1" 3 True 0 False "FixedHeight 50" 60 AlignStart]
    scrollToIndex_local_target[of 3 3 True 0 False "FixedHeight 50" 60 AlignStart]
    scrollToIndex_local_target[of 2 3 True 0 False "FixedHeight 50" 60 AlignStart]
    scrollToIndex_local_target[of 2 3 True 0 False "FixedHeight 50" 60 AlignCenter]
    scrollToIndex_local_target[of 2 3 True 0 False "FixedHeight 50" 60 AlignEnd]
    scrollToIndex_local_target[of 0 3 True 0 False "FixedHeight 50" 60 AlignEnd]
  by (simp add: nth_itemPositions numeral_2_eq_2 number_ops)

section \<open>Properties of the fetch controller\<close>

subsection \<open>What a fetch changes\<close>

lemma try_rest_success:
  assumes "try_rest opts isLoadMore response s = (Inr r, s')"
  shows "\<exists>newItems s2 s3.
           getData opts response = Inr newItems \<and>
           advance opts response
             (s\<lparr>items := (if isLoadMore then itemsRef s @ newItems else newItems),
                itemsRef := (if isLoadMore then itemsRef s @ newItems else newItems)\<rparr>) = (Inr (), s2) \<and>
           checkHasMore opts response (if isLoadMore then itemsRef s @ newItems else newItems) s2
             = (Inr (result_hasMore r), s3) \<and>
           itemsCount r = length (if isLoadMore then itemsRef s @ newItems else newItems) \<and>
           s' = (if onSuccess opts
                 then s3\<lparr>hasMore := result_hasMore r, hasMoreRef := result_hasMore r,
                         calls := calls s3 @ [OnSuccessCall response
                            (if isLoadMore then itemsRef s @ newItems else newItems)]\<rparr>
                 else s3\<lparr>hasMore := result_hasMore r, hasMoreRef := result_hasMore r\<rparr>)"
  using assms
  by (auto simp: try_rest_def Let_def split: sum.splits prod.splits if_splits)

lemma advance_fields:
  "advance opts response s = (r, s') \<Longrightarrow>
     items s' = items s \<and> itemsRef s' = itemsRef s \<and> hasMore s' = hasMore s \<and>
     hasMoreRef s' = hasMoreRef s \<and> error s' = error s \<and> calls s' = calls s \<and>
     isFetchingRef s' = isFetchingRef s \<and> isInitializedRef s' = isInitializedRef s \<and>
     isLoading s' = isLoading s \<and> isLoadingMore s' = isLoadingMore s"
  by (auto simp: advance_def split: if_splits option.splits sum.splits)

lemma checkHasMore_fields:
  "checkHasMore opts response allItems s = (r, s') \<Longrightarrow>
     items s' = items s \<and> itemsRef s' = itemsRef s \<and> hasMore s' = hasMore s \<and>
     hasMoreRef s' = hasMoreRef s \<and> error s' = error s \<and> calls s' = calls s \<and>
     pageRef s' = pageRef s \<and> cursorRef s' = cursorRef s \<and>
     isFetchingRef s' = isFetchingRef s \<and> isInitializedRef s' = isInitializedRef s \<and>
     isLoading s' = isLoading s \<and> isLoadingMore s' = isLoadingMore s"
  by (auto simp: checkHasMore_def split: if_splits option.splits sum.splits)

lemma checkHasMore_result_indep:
  "fst (checkHasMore opts response allItems s) = fst (checkHasMore opts response allItems s0)"
  by (auto simp: checkHasMore_def split: if_splits option.splits sum.splits)

lemma checkHasMore_rules:
  "(hasMoreFn opts = Some f \<longrightarrow>
      fst (checkHasMore opts response allItems s) = f response allItems) \<and>
   (hasMoreFn opts = None \<and> \<not> isPagePagination opts \<and> getNextCursor opts = Some g \<longrightarrow>
      fst (checkHasMore opts response allItems s) =
        (case g response of Inl t \<Rightarrow> Inl t | Inr nextCursor \<Rightarrow> Inr (nextCursor \<noteq> None))) \<and>
   (hasMoreFn opts = None \<and> isPagePagination opts \<and> getTotal opts = Some h \<longrightarrow>
      fst (checkHasMore opts response allItems s) =
        (case h response of Inl t \<Rightarrow> Inl t | Inr n \<Rightarrow> Inr (int (length allItems) < n))) \<and>
   (hasMoreFn opts = None \<and> (isPagePagination opts \<or> getNextCursor opts = None) \<and>
      (\<not> isPagePagination opts \<or> getTotal opts = None) \<longrightarrow>
      fst (checkHasMore opts response allItems s) =
        (case getData opts response of
           Inl t \<Rightarrow> Inl t | Inr newItems \<Rightarrow> Inr (limit opts \<le> int (length newItems))))"
  by (auto simp: checkHasMore_def split: sum.splits option.splits)

lemma try_rest_itemsRef:
  assumes "try_rest opts isLoadMore response s = (Inr r, s')"
  shows "\<exists>newItems. getData opts response = Inr newItems \<and>
           itemsRef s' = (if isLoadMore then itemsRef s @ newItems else newItems) \<and>
           items s' = itemsRef s' \<and> itemsCount r = length (itemsRef s') \<and>
           hasMore s' = result_hasMore r \<and> hasMoreRef s' = result_hasMore r \<and>
           error s' = error s \<and>
           fst (checkHasMore opts response (itemsRef s') s) = Inr (result_hasMore r)"
proof -
  from try_rest_success[OF assms] obtain newItems s2 s3 where
    g: "getData opts response = Inr newItems"
    and a: "advance opts response
             (s\<lparr>items := (if isLoadMore then itemsRef s @ newItems else newItems),
                itemsRef := (if isLoadMore then itemsRef s @ newItems else newItems)\<rparr>) = (Inr (), s2)"
    and c: "checkHasMore opts response (if isLoadMore then itemsRef s @ newItems else newItems) s2
             = (Inr (result_hasMore r), s3)"
    and n: "itemsCount r = length (if isLoadMore then itemsRef s @ newItems else newItems)"
    and s': "s' = (if onSuccess opts
                 then s3\<lparr>hasMore := result_hasMore r, hasMoreRef := result_hasMore r,
                         calls := calls s3 @ [OnSuccessCall response
                            (if isLoadMore then itemsRef s @ newItems else newItems)]\<rparr>
                 else s3\<lparr>hasMore := result_hasMore r, hasMoreRef := result_hasMore r\<rparr>)"
    by blast
  note af = advance_fields[OF a]
  note cf = checkHasMore_fields[OF c]
  have i: "itemsRef s' = (if isLoadMore then itemsRef s @ newItems else newItems)"
    "items s' = itemsRef s'" "error s' = error s"
    "hasMore s' = result_hasMore r" "hasMoreRef s' = result_hasMore r"
    using af cf by (simp_all add: s')
  have "fst (checkHasMore opts response (itemsRef s') s) = Inr (result_hasMore r)"
    using c checkHasMore_result_indep[of opts response _ s s2] by (simp add: i(1))
  with g n i show ?thesis by simp
qed

lemma finally_block_fields:
  "items (finally_block s) = items s" "itemsRef (finally_block s) = itemsRef s"
  "hasMore (finally_block s) = hasMore s" "hasMoreRef (finally_block s) = hasMoreRef s"
  "error (finally_block s) = error s" "calls (finally_block s) = calls s"
  "pageRef (finally_block s) = pageRef s" "cursorRef (finally_block s) = cursorRef s"
  "isInitializedRef (finally_block s) = isInitializedRef s"
  "isLoading (finally_block s) = False" "isLoadingMore (finally_block s) = False"
  "isFetchingRef (finally_block s) = False"
  by (simp_all add: finally_block_def)

lemma fetchData_resume_success:
  "try_rest opts isLoadMore response s = (Inr r, s') \<Longrightarrow>
     fetchData_resume opts isLoadMore (Resolved response) s = (r, finally_block s')"
  by (simp add: fetchData_resume_def)

lemma fetchData_begin_issue:
  "fetchData_begin opts isLoadMore s = (Awaiting ps, s1) \<Longrightarrow>
     \<not> isFetchingRef s \<and> (isLoadMore \<longrightarrow> hasMoreRef s) \<and>
     ps = (if isPagePagination opts then PageParams (pageRef s) (limit opts)
           else CursorParams (cursorRef s) (limit opts)) \<and>
     s1 = s\<lparr>isFetchingRef := True, isLoading := (if isLoadMore then isLoading s else True),
            isLoadingMore := (if isLoadMore then True else isLoadingMore s),
            error := None, calls := calls s @ [FetcherCall ps]\<rparr>"
  by (auto simp: fetchData_begin_def Let_def split: if_splits)

lemma fetchData_begin_return:
  "fetchData_begin opts isLoadMore s = (Returned r, s1) \<Longrightarrow>
     s1 = s \<and> (isFetchingRef s \<or> (isLoadMore \<and> \<not> hasMoreRef s)) \<and>
     itemsCount r = length (itemsRef s) \<and> result_hasMore r = hasMoreRef s"
  by (auto simp: fetchData_begin_def Let_def snapshot_def split: if_splits)


text \<open>A failure before anything is stored: the fetcher rejects, or \<open>getData\<close> throws.\<close>

lemma early_failure_keeps_state:
  assumes "settled = Rejected t \<or> (\<exists>response. settled = Resolved response \<and> getData opts response = Inl t)"
  shows "fetchData_resume opts isLoadMore settled s =
     (snapshot s,
      s\<lparr>error := Some (normalize_error t),
        calls := (if onError opts then calls s @ [OnErrorCall (normalize_error t)] else calls s),
        isLoading := False, isLoadingMore := False, isFetchingRef := False\<rparr>)"
  using assms
  by (auto simp: fetchData_resume_def try_rest_def catch_block_def finally_block_def
        snapshot_def Let_def)

lemma try_rest_failure:
  assumes "try_rest opts b response s = (Inl t, s')"
  shows "(getData opts response = Inl t \<and> s' = s) \<or>
    (\<exists>newItems s1. getData opts response = Inr newItems \<and>
       s1 = s\<lparr>items := (if b then itemsRef s @ newItems else newItems),
              itemsRef := (if b then itemsRef s @ newItems else newItems)\<rparr> \<and>
       (advance opts response s1 = (Inl t, s') \<or>
        (\<exists>s2. advance opts response s1 = (Inr (), s2) \<and>
           checkHasMore opts response (if b then itemsRef s @ newItems else newItems) s2
             = (Inl t, s'))))"
proof (cases "getData opts response")
  case (Inl e)
  with assms show ?thesis by (simp add: try_rest_def)
next
  case (Inr newItems)
  define allItems where "allItems = (if b then itemsRef s @ newItems else newItems)"
  define s1 where "s1 = s\<lparr>items := allItems, itemsRef := allItems\<rparr>"
  obtain ra s2 where a: "advance opts response s1 = (ra, s2)"
    by (cases "advance opts response s1")
  show ?thesis
  proof (cases ra)
    case (Inl e)
    with assms Inr a show ?thesis
      by (simp add: try_rest_def Let_def allItems_def[symmetric] s1_def[symmetric])
  next
    case u: (Inr u)
    obtain rc s3 where c: "checkHasMore opts response allItems s2 = (rc, s3)"
      by (cases "checkHasMore opts response allItems s2")
    show ?thesis
    proof (cases rc)
      case (Inl e)
      with assms Inr a u c show ?thesis
        by (simp add: try_rest_def Let_def allItems_def[symmetric] s1_def[symmetric])
    next
      case (Inr more)
      with assms \<open>getData opts response = Inr newItems\<close> a u c show ?thesis
        by (simp add: try_rest_def Let_def allItems_def[symmetric] s1_def[symmetric]
              split: if_splits)
    qed
  qed
qed

lemma try_rest_failure_fields:
  assumes "try_rest opts b response s = (Inl t, s')"
  shows "hasMoreRef s' = hasMoreRef s \<and> hasMore s' = hasMore s \<and> error s' = error s \<and>
     isInitializedRef s' = isInitializedRef s \<and> calls s' = calls s \<and>
     isFetchingRef s' = isFetchingRef s"
proof -
  from try_rest_failure[OF assms] consider
    (a) "s' = s"
    | (b) newItems where "advance opts response
         (s\<lparr>items := (if b then itemsRef s @ newItems else newItems),
            itemsRef := (if b then itemsRef s @ newItems else newItems)\<rparr>) = (Inl t, s')"
    | (c) newItems s2 where "advance opts response
         (s\<lparr>items := (if b then itemsRef s @ newItems else newItems),
            itemsRef := (if b then itemsRef s @ newItems else newItems)\<rparr>) = (Inr (), s2)"
        "checkHasMore opts response (if b then itemsRef s @ newItems else newItems) s2
             = (Inl t, s')"
    by blast
  then show ?thesis
  proof cases
    case a
    then show ?thesis by simp
  next
    case b
    from advance_fields[OF b] show ?thesis by simp
  next
    case c
    from advance_fields[OF c(1)] checkHasMore_fields[OF c(2)] show ?thesis by simp
  qed
qed

lemma try_rest_result:
  "try_rest opts b response s = (Inr r, s') \<Longrightarrow> r = snapshot s'"
  using try_rest_itemsRef[of opts b response s r s'] by (auto simp: snapshot_def)

lemma catch_block_result:
  "catch_block opts t s = (r, s') \<Longrightarrow> r = snapshot s' \<and> itemsRef s' = itemsRef s \<and>
     hasMoreRef s' = hasMoreRef s \<and> items s' = items s \<and> pageRef s' = pageRef s \<and>
     cursorRef s' = cursorRef s \<and> error s' = Some (normalize_error t) \<and>
     isInitializedRef s' = isInitializedRef s"
  by (auto simp: catch_block_def Let_def snapshot_def split: if_splits)

lemma snapshot_finally: "snapshot (finally_block s) = snapshot s"
  by (simp add: snapshot_def finally_block_fields)

lemma fetchData_resume_result:
  "fetchData_resume opts b settled s = (r, s') \<Longrightarrow> r = snapshot s' \<and> \<not> isFetchingRef s'
     \<and> \<not> isLoading s' \<and> \<not> isLoadingMore s'"
proof -
  assume a: "fetchData_resume opts b settled s = (r, s')"
  show ?thesis
  proof (cases settled)
    case (Rejected t)
    obtain r2 s2 where c: "catch_block opts t s = (r2, s2)" by (cases "catch_block opts t s")
    with Rejected a catch_block_result[OF c] show ?thesis
      by (auto simp: fetchData_resume_def snapshot_finally finally_block_fields)
  next
    case (Resolved response)
    obtain r1 s1 where t: "try_rest opts b response s = (r1, s1)"
      by (cases "try_rest opts b response s")
    show ?thesis
    proof (cases r1)
      case (Inr res)
      with Resolved t a try_rest_result[of opts b response s res s1] show ?thesis
        by (auto simp: fetchData_resume_def snapshot_finally finally_block_fields)
    next
      case (Inl e)
      obtain r2 s2 where c: "catch_block opts e s1 = (r2, s2)" by (cases "catch_block opts e s1")
      with Resolved t a Inl catch_block_result[OF c] show ?thesis
        by (auto simp: fetchData_resume_def snapshot_finally finally_block_fields)
    qed
  qed
qed

lemma fetchData_result:
  assumes "fetchData opts fetcher b (s, w) = (r, s', w')"
  shows "r = snapshot s'"
proof (cases "fetchData_begin opts b s")
  case (Pair st s1)
  show ?thesis
  proof (cases st)
    case (Returned res)
    with Pair assms fetchData_begin_return[of opts b s res s1] show ?thesis
      by (auto simp: fetchData_def snapshot_def)
  next
    case (Awaiting ps)
    obtain settled w1 where f: "fetcher w ps = (settled, w1)" by (cases "fetcher w ps")
    have "fetchData_resume opts b settled s1 = (r, s')"
      using assms Pair Awaiting f by (simp add: fetchData_def split: prod.splits)
    then show ?thesis using fetchData_resume_result by blast
  qed
qed

lemma fetchData_resume_isInitialized:
  "isInitializedRef (snd (fetchData_resume opts b settled s)) = isInitializedRef s"
proof (cases settled)
  case (Rejected t)
  obtain r s' where c: "catch_block opts t s = (r, s')" by (cases "catch_block opts t s")
  with Rejected catch_block_result[OF c] show ?thesis
    by (simp add: fetchData_resume_def finally_block_fields)
next
  case (Resolved response)
  obtain r s1 where t: "try_rest opts b response s = (r, s1)"
    by (cases "try_rest opts b response s")
  show ?thesis
  proof (cases r)
    case (Inr res)
    from try_rest_success[of opts b response s res s1] t Inr obtain newItems s2 s3 where
      a: "advance opts response
             (s\<lparr>items := (if b then itemsRef s @ newItems else newItems),
                itemsRef := (if b then itemsRef s @ newItems else newItems)\<rparr>) = (Inr (), s2)"
      and c: "checkHasMore opts response (if b then itemsRef s @ newItems else newItems) s2
             = (Inr (result_hasMore res), s3)"
      and s': "s1 = (if onSuccess opts
                 then s3\<lparr>hasMore := result_hasMore res, hasMoreRef := result_hasMore res,
                         calls := calls s3 @ [OnSuccessCall response
                            (if b then itemsRef s @ newItems else newItems)]\<rparr>
                 else s3\<lparr>hasMore := result_hasMore res, hasMoreRef := result_hasMore res\<rparr>)"
      by blast
    from advance_fields[OF a] checkHasMore_fields[OF c]
    have "isInitializedRef s1 = isInitializedRef s" by (simp add: s')
    with Resolved t Inr show ?thesis by (simp add: fetchData_resume_def finally_block_fields)
  next
    case (Inl e)
    obtain r2 s2 where c: "catch_block opts e s1 = (r2, s2)" by (cases "catch_block opts e s1")
    with Resolved t Inl catch_block_result[OF c] try_rest_failure_fields[of opts b response s e s1]
    show ?thesis by (simp add: fetchData_resume_def finally_block_fields)
  qed
qed

lemma fetchData_begin_cases:
  "(\<exists>r. fetchData_begin opts b s = (Returned r, s) \<and>
        (isFetchingRef s \<or> (b \<and> \<not> hasMoreRef s))) \<or>
   (\<exists>ps s1. fetchData_begin opts b s = (Awaiting ps, s1) \<and> \<not> isFetchingRef s \<and>
        isFetchingRef s1 \<and> isInitializedRef s1 = isInitializedRef s)"
  by (auto simp: fetchData_begin_def Let_def)

lemma loadMore_begin_cases:
  "(\<exists>r. loadMore_begin opts a b s = (Returned r, s)) \<or>
   (\<exists>ps s1. loadMore_begin opts a b s = (Awaiting ps, s1) \<and> \<not> isFetchingRef s \<and>
        isFetchingRef s1 \<and> isInitializedRef s1 = isInitializedRef s)"
  using fetchData_begin_cases[of opts True s] by (auto simp: loadMore_begin_def)

subsection \<open>Counting the calls of the fetcher\<close>

lemma fetcher_calls_append:
  "fetcher_calls (xs @ ys) = fetcher_calls xs + fetcher_calls ys"
  by (induction xs rule: fetcher_calls.induct) simp_all

lemma try_rest_calls:
  "try_rest opts b response s = (r, s') \<Longrightarrow> fetcher_calls (calls s') = fetcher_calls (calls s)"
proof (cases r)
  case (Inl t)
  assume "try_rest opts b response s = (r, s')"
  with Inl try_rest_failure_fields[of opts b response s t s'] show ?thesis by simp
next
  case (Inr res)
  assume "try_rest opts b response s = (r, s')"
  with Inr try_rest_success[of opts b response s res s'] obtain newItems s2 s3 where
    a: "advance opts response
             (s\<lparr>items := (if b then itemsRef s @ newItems else newItems),
                itemsRef := (if b then itemsRef s @ newItems else newItems)\<rparr>) = (Inr (), s2)"
    and c: "checkHasMore opts response (if b then itemsRef s @ newItems else newItems) s2
             = (Inr (result_hasMore res), s3)"
    and s': "s' = (if onSuccess opts
                 then s3\<lparr>hasMore := result_hasMore res, hasMoreRef := result_hasMore res,
                         calls := calls s3 @ [OnSuccessCall response
                            (if b then itemsRef s @ newItems else newItems)]\<rparr>
                 else s3\<lparr>hasMore := result_hasMore res, hasMoreRef := result_hasMore res\<rparr>)"
    by blast
  from advance_fields[OF a] checkHasMore_fields[OF c]
  have "calls s3 = calls s" by simp
  then show ?thesis by (simp add: s' fetcher_calls_append)
qed

lemma catch_block_calls:
  "catch_block opts t s = (r, s') \<Longrightarrow> fetcher_calls (calls s') = fetcher_calls (calls s)"
  by (auto simp: catch_block_def Let_def fetcher_calls_append split: if_splits)

lemma fetchData_resume_calls:
  "fetcher_calls (calls (snd (fetchData_resume opts b settled s))) = fetcher_calls (calls s)"
proof (cases settled)
  case (Rejected t)
  obtain r s' where c: "catch_block opts t s = (r, s')" by (cases "catch_block opts t s")
  with Rejected show ?thesis
    using catch_block_calls[OF c] by (simp add: fetchData_resume_def finally_block_fields)
next
  case (Resolved response)
  obtain r s1 where t: "try_rest opts b response s = (r, s1)"
    by (cases "try_rest opts b response s")
  note c1 = try_rest_calls[OF t]
  show ?thesis
  proof (cases r)
    case (Inr res)
    with Resolved t c1 show ?thesis by (simp add: fetchData_resume_def finally_block_fields)
  next
    case (Inl e)
    obtain r2 s2 where c: "catch_block opts e s1 = (r2, s2)" by (cases "catch_block opts e s1")
    with Resolved t c1 Inl catch_block_calls[OF c] show ?thesis
      by (simp add: fetchData_resume_def finally_block_fields)
  qed
qed

lemma fetchData_calls:
  assumes "fetchData opts fetcher b (s, w) = (r, s', w')"
  shows "fetcher_calls (calls s') \<le> fetcher_calls (calls s) + 1"
proof (cases "fetchData_begin opts b s")
  case (Pair st s1)
  show ?thesis
  proof (cases st)
    case (Returned res)
    with Pair assms fetchData_begin_return[of opts b s res s1] show ?thesis
      by (simp add: fetchData_def)
  next
    case (Awaiting ps)
    from Pair Awaiting fetchData_begin_issue[of opts b s ps s1]
    have c1: "fetcher_calls (calls s1) = fetcher_calls (calls s) + 1"
      by (simp add: fetcher_calls_append)
    obtain settled w1 where f: "fetcher w ps = (settled, w1)" by (cases "fetcher w ps")
    have "s' = snd (fetchData_resume opts b settled s1)"
      using assms Pair Awaiting f by (simp add: fetchData_def split: prod.splits)
    with c1 fetchData_resume_calls[of opts b settled s1] show ?thesis by simp
  qed
qed

lemma fetchData_issues_one:
  assumes "\<not> isFetchingRef s" "b \<longrightarrow> hasMoreRef s"
    and "fetchData opts fetcher b (s, w) = (r, s', w')"
  shows "fetcher_calls (calls s') = fetcher_calls (calls s) + 1 \<and> \<not> isFetchingRef s'"
proof (cases "fetchData_begin opts b s")
  case (Pair st s1)
  show ?thesis
  proof (cases st)
    case (Returned res)
    with Pair assms fetchData_begin_return[of opts b s res s1] show ?thesis by auto
  next
    case (Awaiting ps)
    from Pair Awaiting fetchData_begin_issue[of opts b s ps s1]
    have c1: "fetcher_calls (calls s1) = fetcher_calls (calls s) + 1"
      by (simp add: fetcher_calls_append)
    obtain settled w1 where f: "fetcher w ps = (settled, w1)" by (cases "fetcher w ps")
    have e: "fetchData_resume opts b settled s1 = (r, s')"
      using assms Pair Awaiting f by (simp add: fetchData_def split: prod.splits)
    then have "s' = snd (fetchData_resume opts b settled s1)" by simp
    with c1 fetchData_resume_calls[of opts b settled s1] fetchData_resume_result[OF e]
    show ?thesis by simp
  qed
qed

subsection \<open>The loop of loadUntilCount\<close>

text \<open>
  What the loop adds to the list of calls: at most \<open>maxAttempts - attempts\<close> entries, each
  made while the loop condition held, and all but the last with \<open>hasMore = true\<close>.
\<close>

lemma loadUntilCount_loop_made:
  "\<exists>new. snd (loadUntilCount_loop opts fetcher t m a sw made) = made @ new \<and>
     int (length new) \<le> max 0 (m - a) \<and>
     (\<forall>c \<in> set new. int (length (itemsRef (fst c))) < t \<and> hasMoreRef (fst c)) \<and>
     (\<forall>i. Suc i < length new \<longrightarrow> result_hasMore (snd (new ! i))) \<and>
     fetcher_calls (calls (fst (fst (loadUntilCount_loop opts fetcher t m a sw made))))
       \<le> fetcher_calls (calls (fst sw)) + length new \<and>
     (int (length (itemsRef (fst (fst (loadUntilCount_loop opts fetcher t m a sw made))))) < t \<and>
      hasMoreRef (fst (fst (loadUntilCount_loop opts fetcher t m a sw made))) \<longrightarrow>
        int (length new) = max 0 (m - a))"
proof (induction opts fetcher t m a sw made rule: loadUntilCount_loop.induct)
  case (1 opts fetcher t m a sw made)
  note unf = loadUntilCount_loop.simps[of opts fetcher t m a sw made]
  let ?cond = "int (length (itemsRef (fst sw))) < t \<and> hasMoreRef (fst sw) \<and> a < m"
  show ?case
  proof (cases ?cond)
    case False
    have "loadUntilCount_loop opts fetcher t m a sw made = (sw, made)"
      by (subst unf) (simp only: False if_False)
    with False show ?thesis by auto
  next
    case True
    obtain result s1 w1 where f: "fetchData opts fetcher True sw = (result, s1, w1)"
      by (cases "fetchData opts fetcher True sw") auto
    have fc: "fetcher_calls (calls s1) \<le> fetcher_calls (calls (fst sw)) + 1"
      using fetchData_calls[of opts fetcher True "fst sw" "snd sw" result s1 w1] f by simp
    show ?thesis
    proof (cases "result_hasMore result")
      case False
      have eq: "loadUntilCount_loop opts fetcher t m a sw made
                  = ((s1, w1), made @ [(fst sw, result)])"
        using True f False by (simp add: unf)
      have hm: "\<not> hasMoreRef s1"
        using fetchData_result[of opts fetcher True "fst sw" "snd sw" result s1 w1] f False
        by (simp add: snapshot_def)
      show ?thesis
        apply (rule exI[of _ "[(fst sw, result)]"])
        using True fc hm by (simp add: eq)
    next
      case hm: True
      have eq: "loadUntilCount_loop opts fetcher t m a sw made
                  = loadUntilCount_loop opts fetcher t m (a + 1) (s1, w1) (made @ [(fst sw, result)])"
        using True f hm by (simp add: unf)
      from "1.IH"[OF True f[symmetric] refl] hm
      obtain new where n: "snd (loadUntilCount_loop opts fetcher t m (a + 1) (s1, w1)
              (made @ [(fst sw, result)])) = (made @ [(fst sw, result)]) @ new"
        "int (length new) \<le> max 0 (m - (a + 1))"
        "\<forall>c \<in> set new. int (length (itemsRef (fst c))) < t \<and> hasMoreRef (fst c)"
        "\<forall>i. Suc i < length new \<longrightarrow> result_hasMore (snd (new ! i))"
        "fetcher_calls (calls (fst (fst (loadUntilCount_loop opts fetcher t m (a + 1) (s1, w1)
              (made @ [(fst sw, result)]))))) \<le> fetcher_calls (calls s1) + length new"
        "int (length (itemsRef (fst (fst (loadUntilCount_loop opts fetcher t m (a + 1) (s1, w1)
              (made @ [(fst sw, result)])))))) < t \<and>
         hasMoreRef (fst (fst (loadUntilCount_loop opts fetcher t m (a + 1) (s1, w1)
              (made @ [(fst sw, result)])))) \<longrightarrow> int (length new) = max 0 (m - (a + 1))"
        by auto
      have nth: "\<forall>i. Suc i < length ((fst sw, result) # new) \<longrightarrow>
                   result_hasMore (snd (((fst sw, result) # new) ! i))"
      proof (intro allI impI)
        fix i assume "Suc i < length ((fst sw, result) # new)"
        then show "result_hasMore (snd (((fst sw, result) # new) ! i))"
          using hm n(4) by (cases i) auto
      qed
      show ?thesis
        apply (rule exI[of _ "(fst sw, result) # new"])
        using True n(1,2,3,5,6) nth fc by (simp add: eq)
    qed
  qed
qed

text \<open>
  When every fetch adds twenty items and reports \<open>hasMore = true\<close>, the loop runs until the
  attempts are used up, as long as the target is out of reach.
\<close>

lemma full_pages_loop:
  "\<forall>s0 w0. \<not> isFetchingRef s0 \<and> hasMoreRef s0 \<longrightarrow>
       (\<exists>r s' w'. fetchData opts fetcher True (s0, w0) = (r, s', w') \<and> result_hasMore r \<and>
          length (itemsRef s') = length (itemsRef s0) + 20) \<Longrightarrow>
   \<not> isFetchingRef (fst sw) \<Longrightarrow> hasMoreRef (fst sw) \<Longrightarrow> a \<le> m \<Longrightarrow>
   int (length (itemsRef (fst sw))) + 20 * (m - a - 1) < t \<Longrightarrow>
   length (itemsRef (fst (fst (loadUntilCount_loop opts fetcher t m a sw made))))
     = length (itemsRef (fst sw)) + 20 * nat (m - a) \<and>
   hasMoreRef (fst (fst (loadUntilCount_loop opts fetcher t m a sw made))) \<and>
   fetcher_calls (calls (fst (fst (loadUntilCount_loop opts fetcher t m a sw made))))
     = fetcher_calls (calls (fst sw)) + nat (m - a) \<and>
   length (snd (loadUntilCount_loop opts fetcher t m a sw made)) = length made + nat (m - a)"
proof (induction opts fetcher t m a sw made rule: loadUntilCount_loop.induct)
  case (1 opts fetcher t m a sw made)
  note unf = loadUntilCount_loop.simps[of opts fetcher t m a sw made]
  note G = "1.prems"(1)
  show ?case
  proof (cases "a < m")
    case False
    with "1.prems" have am: "a = m" by simp
    have "loadUntilCount_loop opts fetcher t m a sw made = (sw, made)"
      by (subst unf) (simp add: am)
    with "1.prems" am show ?thesis by simp
  next
    case True
    then have "0 \<le> 20 * (m - a - 1)" by simp
    with "1.prems"(5) have lt: "int (length (itemsRef (fst sw))) < t" by linarith
    have cond: "int (length (itemsRef (fst sw))) < t \<and> hasMoreRef (fst sw) \<and> a < m"
      using lt True "1.prems"(3) by simp
    from G[rule_format, of "fst sw" "snd sw"] "1.prems"(2,3)
    obtain r s1 w1 where f: "fetchData opts fetcher True sw = (r, s1, w1)"
      and r: "result_hasMore r"
      and len: "length (itemsRef s1) = length (itemsRef (fst sw)) + 20"
      by auto
    from fetchData_issues_one[of "fst sw" True opts fetcher "snd sw" r s1 w1] "1.prems"(2,3) f
    have fc: "fetcher_calls (calls s1) = fetcher_calls (calls (fst sw)) + 1"
      and nf: "\<not> isFetchingRef s1" by simp_all
    have hm: "hasMoreRef s1"
      using fetchData_result[of opts fetcher True "fst sw" "snd sw" r s1 w1] f r
      by (simp add: snapshot_def)
    have eq: "loadUntilCount_loop opts fetcher t m a sw made
                = loadUntilCount_loop opts fetcher t m (a + 1) (s1, w1) (made @ [(fst sw, r)])"
      by (subst unf) (simp add: cond f r)
    have p5: "int (length (itemsRef (fst (s1, w1)))) + 20 * (m - (a + 1) - 1) < t"
      using "1.prems"(5) len by simp
    have nat_eq: "nat (m - a) = Suc (nat (m - (a + 1)))" using True by simp
    from "1.IH"[OF cond f[symmetric] refl _ G _ _ _ p5] r nf hm True
    have ih: "length (itemsRef (fst (fst (loadUntilCount_loop opts fetcher t m (a + 1) (s1, w1)
                  (made @ [(fst sw, r)])))))
         = length (itemsRef s1) + 20 * nat (m - (a + 1))"
       "hasMoreRef (fst (fst (loadUntilCount_loop opts fetcher t m (a + 1) (s1, w1)
                  (made @ [(fst sw, r)]))))"
       "fetcher_calls (calls (fst (fst (loadUntilCount_loop opts fetcher t m (a + 1) (s1, w1)
                  (made @ [(fst sw, r)])))))
         = fetcher_calls (calls s1) + nat (m - (a + 1))"
       "length (snd (loadUntilCount_loop opts fetcher t m (a + 1) (s1, w1)
                  (made @ [(fst sw, r)])))
         = length (made @ [(fst sw, r)]) + nat (m - (a + 1))"
      by simp_all
    show ?thesis
      unfolding eq using ih len fc by (simp add: nat_eq)
  qed
qed

lemma full_page_fetch:
  "\<not> isFetchingRef s \<and> hasMoreRef s \<longrightarrow>
     (\<exists>r s' w'. fetchData page_plain_options full_page_fetcher True (s, w) = (r, s', w') \<and>
        result_hasMore r \<and> length (itemsRef s') = length (itemsRef s) + 20)"
  by (simp add: fetchData_def fetchData_begin_def Let_def page_plain_options_def
        isPagePagination_def limit_def fetchData_resume_def try_rest_def advance_def
        checkHasMore_def numbered_page_def finally_block_def fetcher_calls_append)

subsection \<open>Interleaved runs\<close>


text \<open>The invariant of runs in which \<open>reset\<close> only happens while no fetch is in flight.\<close>

lemma step_single_flight:
  assumes inv: "length out \<le> 1" "out \<noteq> [] \<longrightarrow> isFetchingRef s"
    and idle: "ev \<noteq> Reset \<or> out = []"
  shows "length (snd (step opts ev (s, out))) \<le> 1 \<and>
         (snd (step opts ev (s, out)) \<noteq> [] \<longrightarrow> isFetchingRef (fst (step opts ev (s, out))))"
proof (cases ev)
  case (LoadMore a b)
  with inv loadMore_begin_cases[of opts a b s] show ?thesis
    by (auto simp: suspend_def)
next
  case (FetchDataCall b)
  with inv fetchData_begin_cases[of opts b s] show ?thesis
    by (auto simp: suspend_def)
next
  case Reset
  with inv idle show ?thesis by simp
next
  case (InitialFetchEffect enabled)
  with inv fetchData_begin_cases[of opts False "s\<lparr>isInitializedRef := True\<rparr>"] show ?thesis
    by (auto simp: suspend_def)
next
  case (Settle k settled)
  show ?thesis
  proof (cases "k < length out")
    case True
    with inv have "out = [out ! 0]" "k = 0" by (cases out; simp)+
    with Settle True inv show ?thesis by simp
  next
    case False
    with Settle inv show ?thesis by simp
  qed
qed

lemma run_single_flight:
  "length (snd st) \<le> 1 \<Longrightarrow> (snd st \<noteq> [] \<longrightarrow> isFetchingRef (fst st)) \<Longrightarrow>
   resets_when_idle opts evs st \<Longrightarrow>
     length (snd (run opts evs st)) \<le> 1 \<and>
     (snd (run opts evs st) \<noteq> [] \<longrightarrow> isFetchingRef (fst (run opts evs st)))"
proof (induction evs arbitrary: st)
  case Nil
  then show ?case by simp
next
  case (Cons ev evs)
  obtain s out where st: "st = (s, out)" by (cases st)
  from Cons.prems st have "length out \<le> 1" "out \<noteq> [] \<longrightarrow> isFetchingRef s"
    "ev \<noteq> Reset \<or> out = []" "resets_when_idle opts evs (step opts ev (s, out))"
    by (simp_all add: in_flight_def)
  from step_single_flight[OF this(1,2,3), of opts] this(4) Cons.IH[of "step opts ev (s, out)"]
  show ?case by (simp add: st)
qed




text \<open>Only \<open>reset\<close> clears \<open>isInitializedRef\<close>.\<close>

lemma step_keeps_initialized:
  assumes "ev \<noteq> Reset" "isInitializedRef (fst st)"
  shows "isInitializedRef (fst (step opts ev st))"
proof -
  obtain s out where st: "st = (s, out)" by (cases st)
  show ?thesis
  proof (cases ev)
    case (LoadMore a b)
    with assms st loadMore_begin_cases[of opts a b s] show ?thesis
      by (auto simp: suspend_def)
  next
    case (FetchDataCall b)
    with assms st fetchData_begin_cases[of opts b s] show ?thesis
      by (auto simp: suspend_def)
  next
    case Reset
    with assms show ?thesis by simp
  next
    case (InitialFetchEffect enabled)
    with assms st show ?thesis by simp
  next
    case (Settle k settled)
    with assms st fetchData_resume_isInitialized[of opts "out ! k" settled s] show ?thesis
      by simp
  qed
qed

lemma no_automatic_fetch_once_initialized:
  "Reset \<notin> set evs \<Longrightarrow> isInitializedRef (fst st) \<Longrightarrow> automatic_fetches opts evs st = 0"
proof (induction evs arbitrary: st)
  case Nil
  show ?case by simp
next
  case (Cons ev evs)
  from Cons.prems have ne: "ev \<noteq> Reset" and rest: "Reset \<notin> set evs" by auto
  note k = step_keeps_initialized[OF ne Cons.prems(2), of opts]
  note ih = Cons.IH[OF rest k]
  obtain s out where st: "st = (s, out)" by (cases st)
  show ?case
  proof (cases ev)
    case (InitialFetchEffect enabled)
    with ih Cons.prems(2) st show ?thesis by simp
  qed (use ih ne in simp_all)
qed

lemma effect_sets_initialized:
  "enabled \<Longrightarrow> isInitializedRef (fst (step opts (InitialFetchEffect enabled) st))"
proof -
  assume en: enabled
  obtain s out where st: "st = (s, out)" by (cases st)
  show ?thesis
    using en fetchData_begin_cases[of opts False "s\<lparr>isInitializedRef := True\<rparr>"]
    by (auto simp: st suspend_def)
qed

lemma at_most_one_automatic_fetch:
  "Reset \<notin> set evs \<Longrightarrow> automatic_fetches opts evs st \<le> 1"
proof (induction evs arbitrary: st)
  case Nil
  show ?case by simp
next
  case (Cons ev evs)
  from Cons.prems have ne: "ev \<noteq> Reset" and rest: "Reset \<notin> set evs" by auto
  note ih = Cons.IH[OF rest]
  show ?case
  proof (cases ev)
    case (InitialFetchEffect enabled)
    show ?thesis
    proof (cases enabled)
      case True
      from no_automatic_fetch_once_initialized[OF rest effect_sets_initialized[OF True]]
      have "automatic_fetches opts evs (step opts (InitialFetchEffect enabled) st) = 0" .
      with InitialFetchEffect show ?thesis by simp
    next
      case False
      obtain s out where st: "st = (s, out)" by (cases st)
      from False InitialFetchEffect ih[of st] show ?thesis by (simp add: st in_flight_def)
    qed
  qed (use ih ne in simp_all)
qed

lemma first_enabling_fetches:
  "Reset \<notin> set evs \<Longrightarrow>
     automatic_fetches opts (replicate k (InitialFetchEffect False) @ InitialFetchEffect True # evs)
       (initial_state opts, []) = 1"
proof (induction k)
  case 0
  have s: "step opts (InitialFetchEffect True) (initial_state opts, [])
             = (fst (step opts (InitialFetchEffect True) (initial_state opts, [])), [False])"
    by (simp add: initial_state_def fetchData_begin_def suspend_def Let_def)
  have "in_flight (step opts (InitialFetchEffect True) (initial_state opts, [])) = 1"
    by (subst s) (simp add: in_flight_def)
  moreover have "automatic_fetches opts evs (step opts (InitialFetchEffect True) (initial_state opts, [])) = 0"
    by (rule no_automatic_fetch_once_initialized[OF 0 effect_sets_initialized]) simp
  ultimately show ?case by (simp add: in_flight_def)
next
  case (Suc k)
  then show ?case by (simp add: in_flight_def)
qed

section \<open>Claims about the fetch controller\<close>

text \<open>
  Claim C1. After every successful fetch the controller determines \<open>hasMore\<close> by the first
  applicable rule, in this order: (1) a custom \<open>hasMore\<close> predicate, applied to the
  response and all items so far; (2) else, in cursor mode with a \<open>getNextCursor\<close>
  extractor, whether the extracted next cursor is neither \<open>null\<close> nor \<open>undefined\<close>;
  (3) else, in page mode with a \<open>getTotal\<close> extractor, whether the number of all items so
  far is below the extracted total; (4) else, whether the number of newly extracted items
  is at least the limit. The first four conjuncts say it of \<open>checkHasMore\<close>, for every
  configuration, response and item list; the last says it of a fetch whose \<open>try\<close> block
  ran to its \<open>return\<close>: the returned and the stored \<open>hasMore\<close> are the value of the first
  applicable rule on the items then stored.
\<close>

theorem hasMore_priority:
  "(hasMoreFn opts = Some f \<longrightarrow>
      fst (checkHasMore opts response allItems s0) = f response allItems) \<and>
   (hasMoreFn opts = None \<and> \<not> isPagePagination opts \<and> getNextCursor opts = Some g \<longrightarrow>
      fst (checkHasMore opts response allItems s0) =
        (case g response of Inl t \<Rightarrow> Inl t | Inr nextCursor \<Rightarrow> Inr (nextCursor \<noteq> None))) \<and>
   (hasMoreFn opts = None \<and> isPagePagination opts \<and> getTotal opts = Some h \<longrightarrow>
      fst (checkHasMore opts response allItems s0) =
        (case h response of Inl t \<Rightarrow> Inl t | Inr n \<Rightarrow> Inr (int (length allItems) < n))) \<and>
   (hasMoreFn opts = None \<and> (isPagePagination opts \<or> getNextCursor opts = None) \<and>
      (\<not> isPagePagination opts \<or> getTotal opts = None) \<longrightarrow>
      fst (checkHasMore opts response allItems s0) =
        (case getData opts response of
           Inl t \<Rightarrow> Inl t | Inr newItems \<Rightarrow> Inr (limit opts \<le> int (length newItems)))) \<and>
   (try_rest opts isLoadMore response s = (Inr result, s1) \<longrightarrow>
     fetchData_resume opts isLoadMore (Resolved response) s = (result, finally_block s1) \<and>
     hasMore (finally_block s1) = result_hasMore result \<and>
     hasMoreRef (finally_block s1) = result_hasMore result \<and>
     itemsCount result = length (itemsRef (finally_block s1)) \<and>
     (hasMoreFn opts = Some f \<longrightarrow>
        f response (itemsRef (finally_block s1)) = Inr (result_hasMore result)) \<and>
     (hasMoreFn opts = None \<and> \<not> isPagePagination opts \<and> getNextCursor opts = Some g \<longrightarrow>
        (\<exists>nextCursor. g response = Inr nextCursor \<and>
           result_hasMore result = (nextCursor \<noteq> None))) \<and>
     (hasMoreFn opts = None \<and> isPagePagination opts \<and> getTotal opts = Some h \<longrightarrow>
        (\<exists>n. h response = Inr n \<and>
           result_hasMore result = (int (length (itemsRef (finally_block s1))) < n))) \<and>
     (hasMoreFn opts = None \<and> (isPagePagination opts \<or> getNextCursor opts = None) \<and>
        (\<not> isPagePagination opts \<or> getTotal opts = None) \<longrightarrow>
        (\<exists>newItems. getData opts response = Inr newItems \<and>
           result_hasMore result = (limit opts \<le> int (length newItems)))))"
proof -
  have fetch: "try_rest opts isLoadMore response s = (Inr result, s1) \<longrightarrow>
     fetchData_resume opts isLoadMore (Resolved response) s = (result, finally_block s1) \<and>
     hasMore (finally_block s1) = result_hasMore result \<and>
     hasMoreRef (finally_block s1) = result_hasMore result \<and>
     itemsCount result = length (itemsRef (finally_block s1)) \<and>
     (hasMoreFn opts = Some f \<longrightarrow>
        f response (itemsRef (finally_block s1)) = Inr (result_hasMore result)) \<and>
     (hasMoreFn opts = None \<and> \<not> isPagePagination opts \<and> getNextCursor opts = Some g \<longrightarrow>
        (\<exists>nextCursor. g response = Inr nextCursor \<and>
           result_hasMore result = (nextCursor \<noteq> None))) \<and>
     (hasMoreFn opts = None \<and> isPagePagination opts \<and> getTotal opts = Some h \<longrightarrow>
        (\<exists>n. h response = Inr n \<and>
           result_hasMore result = (int (length (itemsRef (finally_block s1))) < n))) \<and>
     (hasMoreFn opts = None \<and> (isPagePagination opts \<or> getNextCursor opts = None) \<and>
        (\<not> isPagePagination opts \<or> getTotal opts = None) \<longrightarrow>
        (\<exists>newItems. getData opts response = Inr newItems \<and>
           result_hasMore result = (limit opts \<le> int (length newItems))))"
  proof
    assume assms: "try_rest opts isLoadMore response s = (Inr result, s1)"
    from try_rest_itemsRef[OF assms] have
      f: "itemsCount result = length (itemsRef s1)" "hasMore s1 = result_hasMore result"
         "hasMoreRef s1 = result_hasMore result"
      and c: "fst (checkHasMore opts response (itemsRef s1) s) = Inr (result_hasMore result)"
      by auto
    note rules = checkHasMore_rules[of opts f response "itemsRef s1" s g h]
    have r1: "hasMoreFn opts = Some f \<longrightarrow> f response (itemsRef s1) = Inr (result_hasMore result)"
      using rules c by auto
    have r2: "hasMoreFn opts = None \<and> \<not> isPagePagination opts \<and> getNextCursor opts = Some g \<longrightarrow>
          (\<exists>nextCursor. g response = Inr nextCursor \<and>
             result_hasMore result = (nextCursor \<noteq> None))"
      using rules c by (auto split: sum.splits)
    have r3: "hasMoreFn opts = None \<and> isPagePagination opts \<and> getTotal opts = Some h \<longrightarrow>
          (\<exists>n. h response = Inr n \<and> result_hasMore result = (int (length (itemsRef s1)) < n))"
      using rules c by (auto split: sum.splits)
    have r4: "hasMoreFn opts = None \<and> (isPagePagination opts \<or> getNextCursor opts = None) \<and>
          (\<not> isPagePagination opts \<or> getTotal opts = None) \<longrightarrow>
          (\<exists>newItems. getData opts response = Inr newItems \<and>
             result_hasMore result = (limit opts \<le> int (length newItems)))"
      using rules c by (auto split: sum.splits)
    show "fetchData_resume opts isLoadMore (Resolved response) s = (result, finally_block s1) \<and>
     hasMore (finally_block s1) = result_hasMore result \<and>
     hasMoreRef (finally_block s1) = result_hasMore result \<and>
     itemsCount result = length (itemsRef (finally_block s1)) \<and>
     (hasMoreFn opts = Some f \<longrightarrow>
        f response (itemsRef (finally_block s1)) = Inr (result_hasMore result)) \<and>
     (hasMoreFn opts = None \<and> \<not> isPagePagination opts \<and> getNextCursor opts = Some g \<longrightarrow>
        (\<exists>nextCursor. g response = Inr nextCursor \<and>
           result_hasMore result = (nextCursor \<noteq> None))) \<and>
     (hasMoreFn opts = None \<and> isPagePagination opts \<and> getTotal opts = Some h \<longrightarrow>
        (\<exists>n. h response = Inr n \<and>
           result_hasMore result = (int (length (itemsRef (finally_block s1))) < n))) \<and>
     (hasMoreFn opts = None \<and> (isPagePagination opts \<or> getNextCursor opts = None) \<and>
        (\<not> isPagePagination opts \<or> getTotal opts = None) \<longrightarrow>
        (\<exists>newItems. getData opts response = Inr newItems \<and>
           result_hasMore result = (limit opts \<le> int (length newItems))))"
      using fetchData_resume_success[OF assms] f r1 r2 r3 r4
      by (simp add: finally_block_fields)
  qed
  from checkHasMore_rules[of opts f response allItems s0 g h] fetch
  show ?thesis by (intro conjI) blast+
qed

text \<open>One successful fetch for each of the four rules.\<close>

theorem hasMore_priority_witness:
  "try_rest custom_options False \<lparr>res_data = [1, 2], res_total = 1, res_next = None\<rparr>
     (initial_state custom_options)
     = (Inr \<lparr>itemsCount = 2, result_hasMore = True\<rparr>,
        (initial_state custom_options)\<lparr>items := [1, 2], itemsRef := [1, 2], pageRef := 2,
           calls := [OnSuccessCall \<lparr>res_data = [1, 2], res_total = 1, res_next = None\<rparr> [1, 2]]\<rparr>) \<and>
   hasMoreFn custom_options \<noteq> None \<and>
   try_rest cursor_options False \<lparr>res_data = [1, 2], res_total = 9, res_next = Some None\<rparr>
     (initial_state cursor_options)
     = (Inr \<lparr>itemsCount = 2, result_hasMore = False\<rparr>,
        (initial_state cursor_options)\<lparr>items := [1, 2], itemsRef := [1, 2],
           hasMore := False, hasMoreRef := False\<rparr>) \<and>
   hasMoreFn cursor_options = None \<and> \<not> isPagePagination cursor_options \<and>
   getNextCursor cursor_options \<noteq> None \<and>
   try_rest page_total_options True \<lparr>res_data = [3], res_total = 100, res_next = None\<rparr>
     ((initial_state page_total_options)\<lparr>items := [1, 2], itemsRef := [1, 2], pageRef := 2\<rparr>)
     = (Inr \<lparr>itemsCount = 3, result_hasMore = True\<rparr>,
        (initial_state page_total_options)\<lparr>items := [1, 2, 3], itemsRef := [1, 2, 3],
           pageRef := 3, totalRef := Some 100\<rparr>) \<and>
   hasMoreFn page_total_options = None \<and> isPagePagination page_total_options \<and>
   getTotal page_total_options \<noteq> None \<and>
   try_rest page_plain_options False \<lparr>res_data = [1, 2], res_total = 9, res_next = None\<rparr>
     (initial_state page_plain_options)
     = (Inr \<lparr>itemsCount = 2, result_hasMore = False\<rparr>,
        (initial_state page_plain_options)\<lparr>items := [1, 2], itemsRef := [1, 2], pageRef := 2,
           hasMore := False, hasMoreRef := False\<rparr>) \<and>
   hasMoreFn page_plain_options = None \<and> isPagePagination page_plain_options \<and>
   getTotal page_plain_options = None \<and>
   limit page_plain_options = 20 \<and>
   hasMoreRef (snd (fetchData_resume custom_options False
      (Resolved \<lparr>res_data = [1, 2], res_total = 1, res_next = None\<rparr>)
      (initial_state custom_options))) = True \<and>
   hasMoreRef (snd (fetchData_resume cursor_options False
      (Resolved \<lparr>res_data = [1, 2], res_total = 9, res_next = Some None\<rparr>)
      (initial_state cursor_options))) = False \<and>
   hasMoreRef (snd (fetchData_resume page_total_options True
      (Resolved \<lparr>res_data = [3], res_total = 100, res_next = None\<rparr>)
      ((initial_state page_total_options)\<lparr>items := [1, 2], itemsRef := [1, 2], pageRef := 2\<rparr>)))
     = True \<and>
   hasMoreRef (snd (fetchData_resume page_plain_options False
      (Resolved \<lparr>res_data = [1, 2], res_total = 9, res_next = None\<rparr>)
      (initial_state page_plain_options))) = False"
proof -
  have e1: "try_rest custom_options False \<lparr>res_data = [1, 2], res_total = 1, res_next = None\<rparr>
     (initial_state custom_options)
     = (Inr \<lparr>itemsCount = 2, result_hasMore = True\<rparr>,
        (initial_state custom_options)\<lparr>items := [1, 2], itemsRef := [1, 2], pageRef := 2,
           calls := [OnSuccessCall \<lparr>res_data = [1, 2], res_total = 1, res_next = None\<rparr> [1, 2]]\<rparr>)"
    by code_simp
  have e2: "try_rest cursor_options False \<lparr>res_data = [1, 2], res_total = 9, res_next = Some None\<rparr>
     (initial_state cursor_options)
     = (Inr \<lparr>itemsCount = 2, result_hasMore = False\<rparr>,
        (initial_state cursor_options)\<lparr>items := [1, 2], itemsRef := [1, 2],
           hasMore := False, hasMoreRef := False\<rparr>)"
    by code_simp
  have e3: "try_rest page_total_options True \<lparr>res_data = [3], res_total = 100, res_next = None\<rparr>
     ((initial_state page_total_options)\<lparr>items := [1, 2], itemsRef := [1, 2], pageRef := 2\<rparr>)
     = (Inr \<lparr>itemsCount = 3, result_hasMore = True\<rparr>,
        (initial_state page_total_options)\<lparr>items := [1, 2, 3], itemsRef := [1, 2, 3],
           pageRef := 3, totalRef := Some 100\<rparr>)"
    by code_simp
  have e4: "try_rest page_plain_options False \<lparr>res_data = [1, 2], res_total = 9, res_next = None\<rparr>
     (initial_state page_plain_options)
     = (Inr \<lparr>itemsCount = 2, result_hasMore = False\<rparr>,
        (initial_state page_plain_options)\<lparr>items := [1, 2], itemsRef := [1, 2], pageRef := 2,
           hasMore := False, hasMoreRef := False\<rparr>)"
    by code_simp
  have o: "hasMoreFn custom_options \<noteq> None"
    "hasMoreFn cursor_options = None" "\<not> isPagePagination cursor_options"
    "getNextCursor cursor_options \<noteq> None"
    "hasMoreFn page_total_options = None" "isPagePagination page_total_options"
    "getTotal page_total_options \<noteq> None"
    "hasMoreFn page_plain_options = None" "isPagePagination page_plain_options"
    "getTotal page_plain_options = None" "limit page_plain_options = 20"
    by (simp_all add: custom_options_def cursor_options_def page_total_options_def
          page_plain_options_def isPagePagination_def limit_def)
  note t1 = hasMore_priority[THEN conjunct2, THEN conjunct2, THEN conjunct2, THEN conjunct2,
              rule_format, OF e1]
  note t2 = hasMore_priority[THEN conjunct2, THEN conjunct2, THEN conjunct2, THEN conjunct2,
              rule_format, OF e2]
  note t3 = hasMore_priority[THEN conjunct2, THEN conjunct2, THEN conjunct2, THEN conjunct2,
              rule_format, OF e3]
  note t4 = hasMore_priority[THEN conjunct2, THEN conjunct2, THEN conjunct2, THEN conjunct2,
              rule_format, OF e4]
  show ?thesis
    using e1 e2 e3 e4 o t1 t2 t3 t4
    by (simp add: finally_block_fields)
qed




text \<open>
  Claim C5 says that every failed fetch, also one whose extraction function throws, leaves
  items, cursor and page as they were and returns the prior snapshot. In the source the
  items are stored before \<open>getNextCursor\<close> (and \<open>checkHasMore\<close>) run. In the cursor example
  the second page's \<open>getNextCursor\<close> throws: the fetch stores the error and calls
  \<open>onError\<close>, but the items \<open>3, 4\<close> have been appended, the returned count is \<open>4\<close>, not the
  prior \<open>2\<close>, and the cursor is still \<open>c1\<close>, so that the next \<open>loadMore\<close> fetches the same
  page and appends \<open>3, 4\<close> a second time.
\<close>

theorem late_extractor_failure:
  "after_first_page =
     (\<lparr>items = [1, 2], isLoading = False, isLoadingMore = False, error = None,
       hasMore = True, pageRef = 1, cursorRef = Some ''c1'', totalRef = None,
       isFetchingRef = False, isInitializedRef = False, itemsRef = [1, 2],
       hasMoreRef = True, calls = [FetcherCall (CursorParams None 2)]\<rparr>, ()) \<and>
   fetchData cursor_options two_page_fetcher True after_first_page =
     (\<lparr>itemsCount = 4, result_hasMore = True\<rparr>,
      \<lparr>items = [1, 2, 3, 4], isLoading = False, isLoadingMore = False,
       error = Some (Error ''TypeError''), hasMore = True, pageRef = 1,
       cursorRef = Some ''c1'', totalRef = None, isFetchingRef = False,
       isInitializedRef = False, itemsRef = [1, 2, 3, 4], hasMoreRef = True,
       calls = [FetcherCall (CursorParams None 2), FetcherCall (CursorParams (Some ''c1'') 2),
                OnErrorCall (Error ''TypeError'')]\<rparr>, ()) \<and>
   items (fst (snd (fetchData cursor_options two_page_fetcher True
            (snd (fetchData cursor_options two_page_fetcher True after_first_page)))))
     = [1, 2, 3, 4, 3, 4]"
  by code_simp

text \<open>
  Claim C4. \<open>loadUntilCount(targetCount, maxAttempts)\<close> calls \<open>fetchData(true)\<close> at most
  \<open>maxAttempts\<close> times, and so issues at most that many requests; every call is made in
  a state with fewer than \<open>targetCount\<close> items and \<open>hasMore\<close> set; every call but the last
  reported \<open>hasMore = true\<close>, that is, the loop stops at the first call that reports
  \<open>hasMore = false\<close>; the result is the snapshot of the final state; and when it ends
  short of the target with \<open>hasMore\<close> still set, all attempts were used. In particular,
  when every fetch adds twenty items and reports \<open>hasMore = true\<close>, then
  \<open>loadUntilCount(500, 10)\<close>, called with no items loaded, makes exactly ten fetches and
  returns \<open>itemsCount = 200\<close>.
\<close>

theorem loadUntilCount_bounded:
  "int (length (loadUntilCount_calls opts fetcher targetCount maxAttempts (s, w)))
     \<le> max 0 maxAttempts \<and>
   fetcher_calls (calls (fst (snd (loadUntilCount opts fetcher targetCount maxAttempts (s, w)))))
     \<le> fetcher_calls (calls s)
        + length (loadUntilCount_calls opts fetcher targetCount maxAttempts (s, w)) \<and>
   (\<forall>c \<in> set (loadUntilCount_calls opts fetcher targetCount maxAttempts (s, w)).
      int (length (itemsRef (fst c))) < targetCount \<and> hasMoreRef (fst c)) \<and>
   (\<forall>i. Suc i < length (loadUntilCount_calls opts fetcher targetCount maxAttempts (s, w)) \<longrightarrow>
      result_hasMore
        (snd (loadUntilCount_calls opts fetcher targetCount maxAttempts (s, w) ! i))) \<and>
   fst (loadUntilCount opts fetcher targetCount maxAttempts (s, w))
     = snapshot (fst (snd (loadUntilCount opts fetcher targetCount maxAttempts (s, w)))) \<and>
   (int (itemsCount (fst (loadUntilCount opts fetcher targetCount maxAttempts (s, w))))
       < targetCount \<and>
    result_hasMore (fst (loadUntilCount opts fetcher targetCount maxAttempts (s, w))) \<longrightarrow>
      int (length (loadUntilCount_calls opts fetcher targetCount maxAttempts (s, w)))
        = max 0 maxAttempts) \<and>
   ((\<forall>s0 w0. \<not> isFetchingRef s0 \<and> hasMoreRef s0 \<longrightarrow>
       (\<exists>r s' w'. fetchData opts fetcher True (s0, w0) = (r, s', w') \<and> result_hasMore r \<and>
          length (itemsRef s') = length (itemsRef s0) + 20)) \<and>
    \<not> isFetchingRef s \<and> hasMoreRef s \<and> itemsRef s = [] \<longrightarrow>
      fst (loadUntilCount opts fetcher 500 10 (s, w))
        = \<lparr>itemsCount = 200, result_hasMore = True\<rparr> \<and>
      fetcher_calls (calls (fst (snd (loadUntilCount opts fetcher 500 10 (s, w)))))
        = fetcher_calls (calls s) + 10 \<and>
      length (loadUntilCount_calls opts fetcher 500 10 (s, w)) = 10)"
proof -
  let ?L = "loadUntilCount_loop opts fetcher targetCount maxAttempts 0 (s, w) []"
  have r: "loadUntilCount opts fetcher targetCount maxAttempts (s, w)
             = (snapshot (fst (fst ?L)), fst (fst ?L), snd (fst ?L))"
    by (simp add: loadUntilCount_def case_prod_unfold)
  from loadUntilCount_loop_made[of opts fetcher targetCount maxAttempts 0 "(s, w)" "[]"]
  obtain new where n: "snd ?L = new" "int (length new) \<le> max 0 maxAttempts"
    "\<forall>c \<in> set new. int (length (itemsRef (fst c))) < targetCount \<and> hasMoreRef (fst c)"
    "\<forall>i. Suc i < length new \<longrightarrow> result_hasMore (snd (new ! i))"
    "fetcher_calls (calls (fst (fst ?L))) \<le> fetcher_calls (calls s) + length new"
    "int (length (itemsRef (fst (fst ?L)))) < targetCount \<and> hasMoreRef (fst (fst ?L)) \<longrightarrow>
        int (length new) = max 0 maxAttempts"
    by auto
  have general: "int (length (loadUntilCount_calls opts fetcher targetCount maxAttempts (s, w)))
     \<le> max 0 maxAttempts \<and>
   fetcher_calls (calls (fst (snd (loadUntilCount opts fetcher targetCount maxAttempts (s, w)))))
     \<le> fetcher_calls (calls s)
        + length (loadUntilCount_calls opts fetcher targetCount maxAttempts (s, w)) \<and>
   (\<forall>c \<in> set (loadUntilCount_calls opts fetcher targetCount maxAttempts (s, w)).
      int (length (itemsRef (fst c))) < targetCount \<and> hasMoreRef (fst c)) \<and>
   (\<forall>i. Suc i < length (loadUntilCount_calls opts fetcher targetCount maxAttempts (s, w)) \<longrightarrow>
      result_hasMore
        (snd (loadUntilCount_calls opts fetcher targetCount maxAttempts (s, w) ! i))) \<and>
   fst (loadUntilCount opts fetcher targetCount maxAttempts (s, w))
     = snapshot (fst (snd (loadUntilCount opts fetcher targetCount maxAttempts (s, w)))) \<and>
   (int (itemsCount (fst (loadUntilCount opts fetcher targetCount maxAttempts (s, w))))
       < targetCount \<and>
    result_hasMore (fst (loadUntilCount opts fetcher targetCount maxAttempts (s, w))) \<longrightarrow>
      int (length (loadUntilCount_calls opts fetcher targetCount maxAttempts (s, w)))
        = max 0 maxAttempts)"
    unfolding r loadUntilCount_calls_def using n by (simp add: snapshot_def)
  have scenario: "(\<forall>s0 w0. \<not> isFetchingRef s0 \<and> hasMoreRef s0 \<longrightarrow>
       (\<exists>r s' w'. fetchData opts fetcher True (s0, w0) = (r, s', w') \<and> result_hasMore r \<and>
          length (itemsRef s') = length (itemsRef s0) + 20)) \<and>
    \<not> isFetchingRef s \<and> hasMoreRef s \<and> itemsRef s = [] \<longrightarrow>
      fst (loadUntilCount opts fetcher 500 10 (s, w))
        = \<lparr>itemsCount = 200, result_hasMore = True\<rparr> \<and>
      fetcher_calls (calls (fst (snd (loadUntilCount opts fetcher 500 10 (s, w)))))
        = fetcher_calls (calls s) + 10 \<and>
      length (loadUntilCount_calls opts fetcher 500 10 (s, w)) = 10"
  proof
    assume h: "(\<forall>s0 w0. \<not> isFetchingRef s0 \<and> hasMoreRef s0 \<longrightarrow>
       (\<exists>r s' w'. fetchData opts fetcher True (s0, w0) = (r, s', w') \<and> result_hasMore r \<and>
          length (itemsRef s') = length (itemsRef s0) + 20)) \<and>
      \<not> isFetchingRef s \<and> hasMoreRef s \<and> itemsRef s = []"
    let ?M = "loadUntilCount_loop opts fetcher 500 10 0 (s, w) []"
    have "length (itemsRef (fst (fst ?M))) = length (itemsRef (fst (s, w))) + 20 * nat (10 - 0) \<and>
      hasMoreRef (fst (fst ?M)) \<and>
      fetcher_calls (calls (fst (fst ?M))) = fetcher_calls (calls (fst (s, w))) + nat (10 - 0) \<and>
      length (snd ?M) = length ([] :: (('a, 'b) hook_state \<times> load_result) list) + nat (10 - 0)"
      by (rule full_pages_loop) (use h in simp_all)
    then show "fst (loadUntilCount opts fetcher 500 10 (s, w))
        = \<lparr>itemsCount = 200, result_hasMore = True\<rparr> \<and>
      fetcher_calls (calls (fst (snd (loadUntilCount opts fetcher 500 10 (s, w)))))
        = fetcher_calls (calls s) + 10 \<and>
      length (loadUntilCount_calls opts fetcher 500 10 (s, w)) = 10"
      using h by (simp add: loadUntilCount_def loadUntilCount_calls_def snapshot_def
            case_prod_unfold)
  qed
  from general scenario show ?thesis by blast
qed

text \<open>
  Full pages of twenty against the target \<open>500\<close> with ten attempts; and a configuration
  whose first fetch reports \<open>hasMore = false\<close>.
\<close>

theorem loadUntilCount_bounded_witness:
  "\<not> isFetchingRef (initial_state page_plain_options) \<and>
   hasMoreRef (initial_state page_plain_options) \<and>
   itemsRef (initial_state page_plain_options) = [] \<and>
   fst (loadUntilCount page_plain_options full_page_fetcher 500 10
          (initial_state page_plain_options, ()))
     = \<lparr>itemsCount = 200, result_hasMore = True\<rparr> \<and>
   fetcher_calls (calls (fst (snd (loadUntilCount page_plain_options full_page_fetcher 500 10
          (initial_state page_plain_options, ()))))) = 10 \<and>
   length (loadUntilCount_calls page_plain_options full_page_fetcher 500 10
          (initial_state page_plain_options, ())) = 10 \<and>
   fst (loadUntilCount custom_options full_page_fetcher 500 10 (initial_state custom_options, ()))
     = \<lparr>itemsCount = 20, result_hasMore = False\<rparr> \<and>
   length (loadUntilCount_calls custom_options full_page_fetcher 500 10
          (initial_state custom_options, ())) = 1 \<and>
   fetcher_calls (calls (fst (snd (loadUntilCount custom_options full_page_fetcher 500 10
          (initial_state custom_options, ()))))) = 1"
proof -
  have i: "\<not> isFetchingRef (initial_state page_plain_options)"
    "hasMoreRef (initial_state page_plain_options)"
    "itemsRef (initial_state page_plain_options) = []"
    "fetcher_calls (calls (initial_state page_plain_options)) = 0"
    "fetcher_calls (calls (initial_state custom_options)) = 0"
    by (simp_all add: initial_state_def)
  have G: "\<forall>s0 w0. \<not> isFetchingRef s0 \<and> hasMoreRef s0 \<longrightarrow>
       (\<exists>r s' w'. fetchData page_plain_options full_page_fetcher True (s0, w0) = (r, s', w') \<and>
          result_hasMore r \<and> length (itemsRef s') = length (itemsRef s0) + 20)"
    using full_page_fetch by blast
  note scenario = loadUntilCount_bounded[of page_plain_options full_page_fetcher 500 10
         "initial_state page_plain_options" "()", THEN conjunct2, THEN conjunct2,
         THEN conjunct2, THEN conjunct2, THEN conjunct2, THEN conjunct2, rule_format]
  from G i(1,2,3) have "fst (loadUntilCount page_plain_options full_page_fetcher 500 10
          (initial_state page_plain_options, ()))
     = \<lparr>itemsCount = 200, result_hasMore = True\<rparr> \<and>
    fetcher_calls (calls (fst (snd (loadUntilCount page_plain_options full_page_fetcher 500 10
          (initial_state page_plain_options, ())))))
      = fetcher_calls (calls (initial_state page_plain_options)) + 10 \<and>
    length (loadUntilCount_calls page_plain_options full_page_fetcher 500 10
          (initial_state page_plain_options, ())) = 10"
    by (intro scenario conjI)
  then have a: "fst (loadUntilCount page_plain_options full_page_fetcher 500 10
          (initial_state page_plain_options, ()))
     = \<lparr>itemsCount = 200, result_hasMore = True\<rparr>"
    "fetcher_calls (calls (fst (snd (loadUntilCount page_plain_options full_page_fetcher 500 10
          (initial_state page_plain_options, ()))))) = 10"
    "length (loadUntilCount_calls page_plain_options full_page_fetcher 500 10
          (initial_state page_plain_options, ())) = 10"
    using i(4) by simp_all
  have c: "fst (loadUntilCount custom_options full_page_fetcher 500 10
                  (initial_state custom_options, ()))
     = \<lparr>itemsCount = 20, result_hasMore = False\<rparr>"
    "length (loadUntilCount_calls custom_options full_page_fetcher 500 10
          (initial_state custom_options, ())) = 1"
    "fetcher_calls (calls (fst (snd (loadUntilCount custom_options full_page_fetcher 500 10
          (initial_state custom_options, ()))))) = 1"
    by code_simp+
  from i a c show ?thesis by simp
qed

text \<open>
  Claim C3 says that in every interleaving of \<open>loadMore\<close>, \<open>loadUntilCount\<close>, \<open>refresh\<close>,
  \<open>reset\<close> and the initial fetch at most one fetch is in flight, and that a \<open>loadMore\<close>
  made while a fetch is outstanding issues no request. \<open>reset\<close> clears the in-flight
  guard: when \<open>refresh\<close> (its \<open>reset\<close>, then its \<open>fetchData(false)\<close>) or \<open>reset\<close> and
  \<open>loadMore\<close> run while the initial fetch is outstanding, a second request is issued and
  two fetches are in flight.
\<close>

theorem single_flight_counterexample:
  "in_flight (run page_total_options [InitialFetchEffect True]
       (initial_state page_total_options, [])) = 1 \<and>
   in_flight (run page_total_options [InitialFetchEffect True, Reset, FetchDataCall False]
       (initial_state page_total_options, [])) = 2 \<and>
   in_flight (run page_total_options [InitialFetchEffect True, Reset, LoadMore False False]
       (initial_state page_total_options, [])) = 2 \<and>
   calls (fst (run page_total_options [InitialFetchEffect True, Reset, LoadMore False False]
       (initial_state page_total_options, [])))
     = [FetcherCall (PageParams 1 20), FetcherCall (PageParams 1 20)]"
  by code_simp

text \<open>
  Claim C3, amended. In every interleaving of \<open>loadMore\<close>, \<open>loadUntilCount\<close>, \<open>refresh\<close>,
  \<open>reset\<close> and the initial fetch in which \<open>reset\<close> (on its own or as the first step of
  \<open>refresh\<close>) is only called while no fetch is in flight, at most one fetch is in flight at
  any instant; and while one is in flight, a call of \<open>loadMore\<close> (or of \<open>fetchData\<close>)
  issues no request, changes nothing and returns the current snapshot.
\<close>

theorem single_flight:
  "resets_when_idle opts evs (initial_state opts, []) \<longrightarrow>
     in_flight (run opts evs (initial_state opts, [])) \<le> 1 \<and>
     (0 < in_flight (run opts evs (initial_state opts, [])) \<longrightarrow>
        isFetchingRef (fst (run opts evs (initial_state opts, []))) \<and>
        loadMore_begin opts a b (fst (run opts evs (initial_state opts, [])))
          = (Returned (snapshot (fst (run opts evs (initial_state opts, [])))),
             fst (run opts evs (initial_state opts, []))) \<and>
        fetchData_begin opts isLoadMore (fst (run opts evs (initial_state opts, [])))
          = (Returned (snapshot (fst (run opts evs (initial_state opts, [])))),
             fst (run opts evs (initial_state opts, []))) \<and>
        step opts (LoadMore a b) (run opts evs (initial_state opts, []))
          = run opts evs (initial_state opts, []))"
proof
  assume r: "resets_when_idle opts evs (initial_state opts, [])"
  obtain s out where st: "run opts evs (initial_state opts, []) = (s, out)"
    by (cases "run opts evs (initial_state opts, [])")
  from run_single_flight[of "(initial_state opts, [])" opts evs] r st
  have inv: "length out \<le> 1" "out \<noteq> [] \<longrightarrow> isFetchingRef s" by simp_all
  have busy: "isFetchingRef s \<Longrightarrow>
      loadMore_begin opts a b s = (Returned (snapshot s), s) \<and>
      fetchData_begin opts isLoadMore s = (Returned (snapshot s), s)"
    by (simp add: loadMore_begin_def fetchData_begin_def)
  show "in_flight (run opts evs (initial_state opts, [])) \<le> 1 \<and>
     (0 < in_flight (run opts evs (initial_state opts, [])) \<longrightarrow>
        isFetchingRef (fst (run opts evs (initial_state opts, []))) \<and>
        loadMore_begin opts a b (fst (run opts evs (initial_state opts, [])))
          = (Returned (snapshot (fst (run opts evs (initial_state opts, [])))),
             fst (run opts evs (initial_state opts, []))) \<and>
        fetchData_begin opts isLoadMore (fst (run opts evs (initial_state opts, [])))
          = (Returned (snapshot (fst (run opts evs (initial_state opts, [])))),
             fst (run opts evs (initial_state opts, []))) \<and>
        step opts (LoadMore a b) (run opts evs (initial_state opts, []))
          = run opts evs (initial_state opts, []))"
    using inv busy by (auto simp: st in_flight_def suspend_def)
qed

text \<open>
  The initial fetch, a \<open>loadMore\<close> during it, its success, then a \<open>refresh\<close> and a
  \<open>loadMore\<close> during the refresh's fetch: two requests in all.
\<close>

theorem single_flight_witness:
  "resets_when_idle page_total_options
     [InitialFetchEffect True, LoadMore False False, Settle 0 (Resolved (numbered_page 1 20)),
      Reset, FetchDataCall False, LoadMore False False]
     (initial_state page_total_options, []) \<and>
   in_flight (run page_total_options
     [InitialFetchEffect True, LoadMore False False, Settle 0 (Resolved (numbered_page 1 20)),
      Reset, FetchDataCall False, LoadMore False False]
     (initial_state page_total_options, [])) = 1 \<and>
   calls (fst (run page_total_options
     [InitialFetchEffect True, LoadMore False False, Settle 0 (Resolved (numbered_page 1 20)),
      Reset, FetchDataCall False, LoadMore False False]
     (initial_state page_total_options, [])))
     = [FetcherCall (PageParams 1 20), FetcherCall (PageParams 1 20)] \<and>
   fst (loadMore_begin page_total_options False False (fst (run page_total_options
     [InitialFetchEffect True, LoadMore False False, Settle 0 (Resolved (numbered_page 1 20)),
      Reset, FetchDataCall False, LoadMore False False]
     (initial_state page_total_options, []))))
     = Returned \<lparr>itemsCount = 0, result_hasMore = True\<rparr>"
proof -
  let ?evs = "[InitialFetchEffect True, LoadMore False False,
      Settle 0 (Resolved (numbered_page 1 20)), Reset, FetchDataCall False, LoadMore False False]"
  have e: "resets_when_idle page_total_options ?evs (initial_state page_total_options, [])"
    "in_flight (run page_total_options ?evs (initial_state page_total_options, [])) = 1"
    "calls (fst (run page_total_options ?evs (initial_state page_total_options, [])))
       = [FetcherCall (PageParams 1 20), FetcherCall (PageParams 1 20)]"
    "snapshot (fst (run page_total_options ?evs (initial_state page_total_options, [])))
       = \<lparr>itemsCount = 0, result_hasMore = True\<rparr>"
    by code_simp+
  from single_flight[of page_total_options ?evs False False False] e(1,2)
  have "loadMore_begin page_total_options False False
          (fst (run page_total_options ?evs (initial_state page_total_options, [])))
        = (Returned (snapshot (fst (run page_total_options ?evs
              (initial_state page_total_options, [])))),
           fst (run page_total_options ?evs (initial_state page_total_options, [])))"
    by simp
  with e show ?thesis by simp
qed

text \<open>
  Claim C9 says that the automatic initial fetch is issued exactly once in the lifetime of
  an instance, even when \<open>reset\<close> or \<open>refresh\<close> occur in between. \<open>reset\<close> clears
  \<open>isInitializedRef\<close>: the next run of the effect after a \<open>reset\<close> (or after a completed
  \<open>refresh\<close>) issues the automatic fetch again.
\<close>

theorem initial_fetch_counterexample:
  "automatic_fetches page_total_options
     [InitialFetchEffect True, Settle 0 (Resolved (numbered_page 1 20)), Reset,
      InitialFetchEffect True]
     (initial_state page_total_options, []) = 2 \<and>
   automatic_fetches page_total_options
     [InitialFetchEffect True, Settle 0 (Resolved (numbered_page 1 20)), Reset,
      FetchDataCall False, Settle 0 (Resolved (numbered_page 1 20)), InitialFetchEffect True]
     (initial_state page_total_options, []) = 2"
  by code_simp

text \<open>
  Claim C9, amended. As long as \<open>reset\<close> (and so \<open>refresh\<close>) is not called, at most one
  fetch is issued automatically in the lifetime of an instance, however often the effect
  runs again; and the first run of the effect with \<open>enabled = true\<close> on a fresh instance
  issues exactly one request, after which no later run of the effect issues another. A
  \<open>reset\<close> re-arms the automatic fetch: the next run of the effect with \<open>enabled = true\<close>
  right after a \<open>reset\<close> issues a request.
\<close>

theorem initial_fetch_once:
  "(Reset \<notin> set evs \<longrightarrow>
     automatic_fetches opts evs (initial_state opts, []) \<le> 1 \<and>
     automatic_fetches opts
        (replicate k (InitialFetchEffect False) @ InitialFetchEffect True # evs)
        (initial_state opts, []) = 1 \<and>
     fetcher_calls (calls (fst (run opts
        (replicate k (InitialFetchEffect False) @ [InitialFetchEffect True])
        (initial_state opts, [])))) = 1) \<and>
   in_flight (step opts (InitialFetchEffect True) (step opts Reset st)) = Suc (in_flight st)"
proof (rule conjI, rule impI)
  assume r: "Reset \<notin> set evs"
  have run_disabled: "run opts (replicate k (InitialFetchEffect False) @ [InitialFetchEffect True])
          (initial_state opts, [])
        = step opts (InitialFetchEffect True) (initial_state opts, [])"
    by (induction k) simp_all
  have "fetcher_calls (calls (fst (step opts (InitialFetchEffect True) (initial_state opts, [])))) = 1"
    by (simp add: initial_state_def fetchData_begin_def suspend_def Let_def)
  with r at_most_one_automatic_fetch[of evs opts] first_enabling_fetches[of evs opts k] run_disabled
  show "automatic_fetches opts evs (initial_state opts, []) \<le> 1 \<and>
     automatic_fetches opts
        (replicate k (InitialFetchEffect False) @ InitialFetchEffect True # evs)
        (initial_state opts, []) = 1 \<and>
     fetcher_calls (calls (fst (run opts
        (replicate k (InitialFetchEffect False) @ [InitialFetchEffect True])
        (initial_state opts, [])))) = 1" by simp
next
  obtain s out where st: "st = (s, out)" by (cases st)
  show "in_flight (step opts (InitialFetchEffect True) (step opts Reset st)) = Suc (in_flight st)"
    by (simp add: st reset_def fetchData_begin_def suspend_def in_flight_def Let_def)
qed

text \<open>
  Two runs of the effect while disabled, the enabling run, and further runs of the effect
  between a completed fetch and a \<open>loadMore\<close>.
\<close>

theorem initial_fetch_once_witness:
  "Reset \<notin> set [InitialFetchEffect True, Settle 0 (Resolved (numbered_page 1 20)),
                 InitialFetchEffect True, LoadMore False False, InitialFetchEffect True] \<and>
   automatic_fetches page_total_options
     (replicate 2 (InitialFetchEffect False) @ InitialFetchEffect True #
        [InitialFetchEffect True, Settle 0 (Resolved (numbered_page 1 20)),
         InitialFetchEffect True, LoadMore False False, InitialFetchEffect True])
     (initial_state page_total_options, []) = 1 \<and>
   automatic_fetches page_total_options
     [InitialFetchEffect True, Settle 0 (Resolved (numbered_page 1 20)),
      InitialFetchEffect True, LoadMore False False, InitialFetchEffect True]
     (initial_state page_total_options, []) = 1 \<and>
   in_flight (step page_total_options (InitialFetchEffect True)
     (step page_total_options Reset (initial_state page_total_options, []))) = 1"
proof -
  have e: "automatic_fetches page_total_options
     [InitialFetchEffect True, Settle 0 (Resolved (numbered_page 1 20)),
      InitialFetchEffect True, LoadMore False False, InitialFetchEffect True]
     (initial_state page_total_options, []) = 1"
    by code_simp
  have n: "Reset \<notin> set [InitialFetchEffect True, Settle 0 (Resolved (numbered_page 1 20)),
                 InitialFetchEffect True, LoadMore False False, InitialFetchEffect True]"
    by simp
  from initial_fetch_once[of "[InitialFetchEffect True, Settle 0 (Resolved (numbered_page 1 20)),
      InitialFetchEffect True, LoadMore False False, InitialFetchEffect True]"
      page_total_options 2 "(initial_state page_total_options, [])"] n e
  show ?thesis by (simp add: in_flight_def)
qed

end
